theory Spec2Isabelle
  imports Main
begin

unbundle bit_operations_syntax

section \<open>Values, errors and the data of the state package\<close>

text \<open>
  JavaScript values as far as the modelled code inspects them: \<open>undefined\<close>, \<open>null\<close>,
  numbers (integers here: timestamps, positions), booleans, strings, and objects known
  only by their identity.
\<close>

datatype val = VUndefined | VNull | VNum int | VBool bool | VStr string | VObj nat

text \<open>JavaScript truthiness, as \<open>if (exists)\<close> in \<open>EditorState.create\<close> tests it.\<close>

fun truthy :: "val \<Rightarrow> bool" where
  "truthy VUndefined = False"
| "truthy VNull = False"
| "truthy (VNum n) = (n \<noteq> 0)"
| "truthy (VBool b) = b"
| "truthy (VStr s) = (s \<noteq> [])"
| "truthy (VObj a) = True"

text \<open>
  One constructor for each \<open>throw\<close> of the modelled code; \<open>Thrown\<close> stands for whatever a
  callback or a state field raises.
  \<^item> \<open>InvalidChange from to\<close>: \<open>RangeError(`Invalid change ${from} to ${to}`)\<close>
  \<^item> \<open>SelectionOutsideDocument\<close>: \<open>RangeError("Selection points outside of document")\<close>
  \<^item> \<open>FieldNotInitialized\<close>: \<open>RangeError("Field hasn't been initialized yet")\<close>
  \<^item> \<open>FieldNotPresent\<close>: \<open>RangeError("Field is not present in this state")\<close>
  \<^item> \<open>InvalidJSON\<close>: \<open>RangeError("Invalid JSON representation for EditorState")\<close>
  \<^item> \<open>TransactionApplied\<close>: \<open>Error("Transactions may not be modified after being applied")\<close>
  \<^item> \<open>DuplicateField\<close>: \<open>Error(`Duplicate use of state field...`)\<close>
\<close>

datatype error =
    InvalidChange int int
  | SelectionOutsideDocument
  | FieldNotInitialized
  | FieldNotPresent
  | InvalidJSON
  | TransactionApplied
  | DuplicateField
  | Thrown nat

fun is_RangeError :: "error \<Rightarrow> bool" where
  "is_RangeError (InvalidChange f t) = True"
| "is_RangeError SelectionOutsideDocument = True"
| "is_RangeError FieldNotInitialized = True"
| "is_RangeError FieldNotPresent = True"
| "is_RangeError InvalidJSON = True"
| "is_RangeError TransactionApplied = False"
| "is_RangeError DuplicateField = False"
| "is_RangeError (Thrown n) = False"

text \<open>
  The classes \<open>Change\<close>, \<open>ChangeSet\<close>, \<open>SelectionRange\<close>, \<open>EditorSelection\<close> and
  \<open>Annotation\<close> are imported by \<^verbatim>\<open>transaction.ts\<close> from files that are not part of the
  sources at hand. Their fields are taken as the code reads them
  (\<open>change.from\<close>, \<open>change.to\<close>, \<open>change.length\<close>, \<open>set.changes\<close>, \<open>set.mirror\<close>,
  \<open>sel.ranges\<close>, \<open>sel.primaryIndex\<close>, \<open>ann.type\<close>, \<open>ann.value\<close>).
\<close>

record Change =
  c_from :: int
  c_to :: int
  c_length :: int
  c_text :: "string list"

record ChangeSet =
  cs_changes :: "Change list"
  cs_mirror :: "int list"

record SelectionRange =
  anchor :: int
  head :: int

record EditorSelection =
  ranges :: "SelectionRange list"
  primaryIndex :: nat

text \<open>
  An annotation type is the function \<open>Annotation.define()\<close> returned, compared by
  identity. The four static ones of \<open>Transaction\<close> are named; any other is \<open>Defined n\<close>.
\<close>

datatype ann_type = Time | PreserveGoalColumn | UserEvent | AddToHistory | Defined nat

record Annotation =
  a_type :: ann_type
  a_value :: val

text \<open>
  Modelled from the spec: the getters \<open>SelectionRange.from\<close> and \<open>SelectionRange.to\<close>
  are missing from the sources; the spec gives them as
  "\<open>{anchor, head}\<close> with derived \<open>from=min\<close>, \<open>to=max\<close>".
\<close>

definition range_from :: "SelectionRange \<Rightarrow> int" where
  "range_from r = min (anchor r) (head r)"

definition range_to :: "SelectionRange \<Rightarrow> int" where
  "range_to r = max (anchor r) (head r)"

text \<open>
  Modelled from the spec: \<open>ChangeSet.length\<close>, \<open>ChangeSet.empty\<close> and \<open>ChangeSet.append\<close>
  are missing from the sources. The spec describes a change set as an "ordered sequence of
  Changes plus an optional mirror index array pairing changes that are inverses of one
  another", whose "changes are stored in application order" and which supports \<open>append\<close>:
  the length is the number of changes, the empty set has neither changes nor mirror
  entries, and appending puts the change last and, when a mirror index is given, records
  the pair (index of the new change, mirror index).
\<close>

definition cs_length :: "ChangeSet \<Rightarrow> int" where
  "cs_length s = int (length (cs_changes s))"

definition ChangeSet_empty :: ChangeSet where
  "ChangeSet_empty = \<lparr>cs_changes = [], cs_mirror = []\<rparr>"

definition cs_append :: "ChangeSet \<Rightarrow> Change \<Rightarrow> int option \<Rightarrow> ChangeSet" where
  "cs_append s c mirror =
     \<lparr>cs_changes = cs_changes s @ [c],
      cs_mirror = (case mirror of None \<Rightarrow> cs_mirror s
                   | Some m \<Rightarrow> cs_mirror s @ [cs_length s, m])\<rparr>"

section \<open>Editor state and transaction records\<close>

text \<open>
  \<open>'c\<close> is the type of configurations (\<open>Configuration<EditorState>\<close>, compared by identity
  in the code, by equality here) and \<open>'d\<close> the type of documents (\<open>Text\<close>); both classes
  live outside the sources. \<open>es_values\<close> is the object \<open>values\<close>, created with
  \<open>Object.create(null)\<close>: a key is an own property or is absent. In a transaction,
  \<open>priv_annotations\<close> is the private field \<open>_annotations\<close>, and \<open>state\<close> is \<open>None\<close> for
  \<open>null\<close>.
\<close>

record ('c, 'd) EditorState =
  es_configuration :: 'c
  es_values :: "nat \<rightharpoonup> val"
  es_doc :: 'd
  es_selection :: EditorSelection

record ('c, 'd) Transaction =
  startState :: "('c, 'd) EditorState"
  changes :: ChangeSet
  docs :: "'d list"
  selection :: EditorSelection
  priv_annotations :: "Annotation list"
  flags :: nat
  configuration :: 'c
  state :: "('c, 'd) EditorState option"

text \<open>A state field: its \<open>id\<close>, \<open>init(state)\<close> and \<open>apply(tr, value, newState)\<close>.\<close>

record ('c, 'd) StateField =
  field_id :: nat
  field_init :: "('c, 'd) EditorState \<Rightarrow> error + val"
  field_apply :: "('c, 'd) Transaction \<Rightarrow> val \<Rightarrow> ('c, 'd) EditorState \<Rightarrow> error + val"

text \<open>
  The collaborators the modelled methods call and whose code is not at hand, taken as
  parameters. \<open>'x\<close> is the type of extensions.
  \<^item> \<open>text_length d\<close>: \<open>d.length\<close> of a \<open>Text\<close>
  \<^item> \<open>text_of_string cfg s\<close>:
    \<open>Text.of(s.split(cfg.getBehavior(EditorState.lineSeparator) || DEFAULT_SPLIT))\<close>
  \<^item> \<open>change_apply c d\<close>: \<open>c.apply(d)\<close>
  \<^item> \<open>change_invert c d\<close>: \<open>c.invert(d)\<close>, where \<open>d\<close> is \<open>None\<close> when the code passes
    \<open>undefined\<close> (an array read out of range)
  \<^item> \<open>selection_map sel c\<close>: \<open>sel.map(c)\<close> for a change \<open>c\<close>
  \<^item> \<open>range_map r set k\<close>: \<open>r.map(set.partialMapping(k))\<close>, the range mapped through
    the changes of \<open>set\<close> from index \<open>k\<close> on
  \<^item> \<open>selection_create rs p\<close>: \<open>EditorSelection.create(rs, p)\<close>
  \<^item> \<open>selection_asSingle sel\<close>: \<open>sel.asSingle()\<close>
  \<^item> \<open>selection_fromJSON j\<close>: \<open>EditorSelection.fromJSON(j)\<close>
  \<^item> \<open>allowMultiple cfg st\<close>: \<open>cfg.getBehavior(allowMultipleSelections, st)\<close>
  \<^item> \<open>stateFields cfg st\<close>: \<open>cfg.getBehavior(stateField, st)\<close>
  \<^item> \<open>resolve xs\<close>: \<open>extendState.resolve(xs)\<close>
  \<^item> \<open>cfg_replaceExtensions cfg xs\<close>: \<open>cfg.replaceExtensions(xs)\<close>
\<close>

record ('c, 'd, 'x) collab =
  text_length :: "'d \<Rightarrow> int"
  text_of_string :: "'c \<Rightarrow> string \<Rightarrow> 'd"
  change_apply :: "Change \<Rightarrow> 'd \<Rightarrow> 'd"
  change_invert :: "Change \<Rightarrow> 'd option \<Rightarrow> error + Change"
  selection_map :: "EditorSelection \<Rightarrow> Change \<Rightarrow> EditorSelection"
  range_map :: "SelectionRange \<Rightarrow> ChangeSet \<Rightarrow> int \<Rightarrow> SelectionRange"
  selection_create :: "SelectionRange list \<Rightarrow> nat \<Rightarrow> EditorSelection"
  selection_asSingle :: "EditorSelection \<Rightarrow> EditorSelection"
  selection_fromJSON :: "val \<Rightarrow> error + EditorSelection"
  allowMultiple :: "'c \<Rightarrow> ('c, 'd) EditorState option \<Rightarrow> bool"
  stateFields :: "'c \<Rightarrow> ('c, 'd) EditorState option \<Rightarrow> ('c, 'd) StateField list"
  resolve :: "'x list \<Rightarrow> 'c"
  cfg_replaceExtensions :: "'c \<Rightarrow> 'x list \<Rightarrow> 'c"

section \<open>Transaction: construction and annotations\<close>

text \<open>
  The constructor. \<open>time\<close> is \<open>None\<close> when the argument is left out, and \<open>now\<close> is what
  \<open>Date.now()\<close> returns then.
\<close>

definition Transaction_time :: "int \<Rightarrow> Annotation" where
  "Transaction_time t = \<lparr>a_type = Time, a_value = VNum t\<rparr>"

definition new_Transaction :: "('c, 'd) EditorState \<Rightarrow> int option \<Rightarrow> int \<Rightarrow> ('c, 'd) Transaction" where
  "new_Transaction st time now =
     \<lparr>startState = st,
      changes = ChangeSet_empty,
      docs = [],
      selection = es_selection st,
      priv_annotations = [Transaction_time (case time of None \<Rightarrow> now | Some t \<Rightarrow> t)],
      flags = 0,
      configuration = es_configuration st,
      state = None\<rparr>"

text \<open>The getter \<open>doc\<close>.\<close>

definition doc :: "('c, 'd) Transaction \<Rightarrow> 'd" where
  "doc tr = (if docs tr = [] then es_doc (startState tr) else last (docs tr))"

definition ensureOpen :: "('c, 'd) Transaction \<Rightarrow> error + unit" where
  "ensureOpen tr = (case state tr of Some s \<Rightarrow> Inl TransactionApplied | None \<Rightarrow> Inr ())"

definition annotate :: "('c, 'd) Transaction \<Rightarrow> Annotation list \<Rightarrow> error + ('c, 'd) Transaction" where
  "annotate tr anns =
     (case ensureOpen tr of
        Inl e \<Rightarrow> Inl e
      | Inr u \<Rightarrow> Inr (tr\<lparr>priv_annotations := priv_annotations tr @ anns\<rparr>))"

text \<open>
  \<open>annotation(type)\<close>: the loop \<open>for (i = length - 1; i >= 0; i--)\<close>, with \<open>n = i + 1\<close>
  as the counter; \<open>VUndefined\<close> is the \<open>return undefined\<close> after the loop.
\<close>

fun annotation_from :: "Annotation list \<Rightarrow> ann_type \<Rightarrow> nat \<Rightarrow> val" where
  "annotation_from anns ty 0 = VUndefined"
| "annotation_from anns ty (Suc i) =
     (if a_type (anns ! i) = ty then a_value (anns ! i) else annotation_from anns ty i)"

definition annotation :: "('c, 'd) Transaction \<Rightarrow> ann_type \<Rightarrow> val" where
  "annotation tr ty = annotation_from (priv_annotations tr) ty (length (priv_annotations tr))"

text \<open>
  \<open>annotations(type)\<close>: the loop over \<open>this._annotations\<close> pushing each matching value
  onto \<open>found\<close> (the shared empty array \<open>none\<close> until the first match).
\<close>

fun annotations_loop :: "Annotation list \<Rightarrow> ann_type \<Rightarrow> val list \<Rightarrow> val list" where
  "annotations_loop [] ty found = found"
| "annotations_loop (ann # rest) ty found =
     annotations_loop rest ty (if a_type ann = ty then found @ [a_value ann] else found)"

definition annotations :: "('c, 'd) Transaction \<Rightarrow> ann_type \<Rightarrow> val list" where
  "annotations tr ty = annotations_loop (priv_annotations tr) ty []"

section \<open>EditorState\<close>

text \<open>
  The constructor: \<open>for (let range of selection.ranges) if (range.to > doc.length) throw\<close>,
  then the four fields as given.
\<close>

fun check_ranges :: "int \<Rightarrow> SelectionRange list \<Rightarrow> error + unit" where
  "check_ranges len [] = Inr ()"
| "check_ranges len (r # rest) =
     (if range_to r > len then Inl SelectionOutsideDocument else check_ranges len rest)"

definition new_EditorState ::
  "('c, 'd, 'x) collab \<Rightarrow> 'c \<Rightarrow> (nat \<rightharpoonup> val) \<Rightarrow> 'd \<Rightarrow> EditorSelection \<Rightarrow> error + ('c, 'd) EditorState" where
  "new_EditorState X cfg vals d sel =
     (case check_ranges (text_length X d) (ranges sel) of
        Inl e \<Rightarrow> Inl e
      | Inr u \<Rightarrow> Inr \<lparr>es_configuration = cfg, es_values = vals, es_doc = d, es_selection = sel\<rparr>)"

text \<open>\<open>this.values[id]\<close>: \<open>undefined\<close> for a key that is not there.\<close>

definition values_get :: "(nat \<rightharpoonup> val) \<Rightarrow> nat \<Rightarrow> val" where
  "values_get vals k = (case vals k of None \<Rightarrow> VUndefined | Some v \<Rightarrow> v)"

text \<open>\<open>state.behavior(stateField)\<close>, that is \<open>configuration.getBehavior(stateField, state)\<close>.\<close>

definition behavior_stateField ::
  "('c, 'd, 'x) collab \<Rightarrow> ('c, 'd) EditorState \<Rightarrow> ('c, 'd) StateField list" where
  "behavior_stateField X st = stateFields X (es_configuration st) (Some st)"

text \<open>
  \<open>field(field, require = true)\<close>; \<open>require\<close> is \<open>None\<close> when the argument is left out.
  \<open>indexOf(field) > -1\<close> is membership in the list of declared fields.
\<close>

definition field ::
  "('c, 'd, 'x) collab \<Rightarrow> ('c, 'd) EditorState \<Rightarrow> ('c, 'd) StateField \<Rightarrow> bool option \<Rightarrow> error + val" where
  "field X st f require =
     (let v = values_get (es_values st) (field_id f) in
      if v = VUndefined \<and> field_id f \<notin> dom (es_values st) then
        (if f \<in> set (behavior_stateField X st) then Inl FieldNotInitialized
         else if (case require of None \<Rightarrow> True | Some b \<Rightarrow> b) then Inl FieldNotPresent
         else Inr VUndefined)
      else Inr v)"

text \<open>
  \<open>applyTransaction\<close>: the new state is constructed first, with an empty \<open>values\<close>
  object; the loop over the declared fields then fills that same object, so each field
  sees the new state with the values stored so far.
\<close>

fun apply_fields ::
  "('c, 'd) Transaction \<Rightarrow> ('c, 'd) EditorState \<Rightarrow> 'c \<Rightarrow> ('c, 'd) StateField list \<Rightarrow>
   ('c, 'd) EditorState \<Rightarrow> error + ('c, 'd) EditorState" where
  "apply_fields tr this cfg [] newState = Inr newState"
| "apply_fields tr this cfg (f # rest) newState =
     (let exists = (cfg = es_configuration this \<or> field_id f \<in> dom (es_values this)) in
      case (if exists then field_apply f tr (values_get (es_values this) (field_id f)) newState
            else field_init f newState) of
        Inl e \<Rightarrow> Inl e
      | Inr v \<Rightarrow> apply_fields tr this cfg rest
                 (newState\<lparr>es_values := (es_values newState)(field_id f \<mapsto> v)\<rparr>))"

definition applyTransaction ::
  "('c, 'd, 'x) collab \<Rightarrow> ('c, 'd) EditorState \<Rightarrow> ('c, 'd) Transaction \<Rightarrow> error + ('c, 'd) EditorState" where
  "applyTransaction X this tr =
     (let cfg = configuration tr in
      case new_EditorState X cfg Map.empty (doc tr) (selection tr) of
        Inl e \<Rightarrow> Inl e
      | Inr newState \<Rightarrow> apply_fields tr this cfg (stateFields X cfg None) newState)"

text \<open>\<open>t(timestamp?)\<close>.\<close>

definition t :: "('c, 'd) EditorState \<Rightarrow> int option \<Rightarrow> int \<Rightarrow> ('c, 'd) Transaction" where
  "t st timestamp now = new_Transaction st timestamp now"

text \<open>
  \<open>EditorStateConfig\<close>: \<open>doc\<close> is absent, a string or a \<open>Text\<close>; \<open>selection\<close> and
  \<open>extensions\<close> are optional.
\<close>

datatype 'd doc_config = DocAbsent | DocString string | DocText 'd

record ('d, 'x) EditorStateConfig =
  config_doc :: "'d doc_config"
  config_selection :: "EditorSelection option"
  config_extensions :: "'x list option"

text \<open>
  Modelled from the spec: \<open>EditorSelection.single\<close> is missing from the sources; the spec
  gives the default selection of \<open>create\<close> as a "cursor at 0", one range with anchor and
  head at the position, which is the primary one.
\<close>

definition EditorSelection_single :: "int \<Rightarrow> EditorSelection" where
  "EditorSelection_single pos = \<lparr>ranges = [\<lparr>anchor = pos, head = pos\<rparr>], primaryIndex = 0\<rparr>"

text \<open>The loop of \<open>create\<close> that initialises every declared field.\<close>

fun init_fields :: "('c, 'd) StateField list \<Rightarrow> ('c, 'd) EditorState \<Rightarrow> error + ('c, 'd) EditorState" where
  "init_fields [] st = Inr st"
| "init_fields (f # rest) st =
     (let exists = values_get (es_values st) (field_id f) in
      if truthy exists then Inl DuplicateField
      else case field_init f st of
             Inl e \<Rightarrow> Inl e
           | Inr v \<Rightarrow> init_fields rest (st\<lparr>es_values := (es_values st)(field_id f \<mapsto> v)\<rparr>))"

definition create ::
  "('c, 'd, 'x) collab \<Rightarrow> ('d, 'x) EditorStateConfig \<Rightarrow> error + ('c, 'd) EditorState" where
  "create X config =
     (let cfg = resolve X (case config_extensions config of None \<Rightarrow> [] | Some xs \<Rightarrow> xs);
          d = (case config_doc config of
                 DocText txt \<Rightarrow> txt
               | DocString s \<Rightarrow> text_of_string X cfg s
               | DocAbsent \<Rightarrow> text_of_string X cfg []);
          sel0 = (case config_selection config of None \<Rightarrow> EditorSelection_single 0 | Some s \<Rightarrow> s);
          sel = (if \<not> allowMultiple X cfg None then selection_asSingle X sel0 else sel0)
      in case new_EditorState X cfg Map.empty d sel of
           Inl e \<Rightarrow> Inl e
         | Inr st \<Rightarrow> init_fields (behavior_stateField X st) st)"

text \<open>
  \<open>fromJSON(json, config)\<close>. \<open>json\<close> is \<open>None\<close> when the value is falsy, and otherwise
  the pair of its properties \<open>doc\<close> and \<open>selection\<close> (\<open>VUndefined\<close> for a missing one).
\<close>

definition fromJSON ::
  "('c, 'd, 'x) collab \<Rightarrow> (val \<times> val) option \<Rightarrow> ('d, 'x) EditorStateConfig \<Rightarrow> error + ('c, 'd) EditorState" where
  "fromJSON X json config =
     (case json of
        None \<Rightarrow> Inl InvalidJSON
      | Some (jdoc, jsel) \<Rightarrow>
          (case jdoc of
             VStr s \<Rightarrow>
               (case selection_fromJSON X jsel of
                  Inl e \<Rightarrow> Inl e
                | Inr sel \<Rightarrow>
                    create X \<lparr>config_doc = DocString s, config_selection = Some sel,
                              config_extensions = config_extensions config\<rparr>)
           | _ \<Rightarrow> Inl InvalidJSON))"

section \<open>Transaction: the updating methods\<close>

definition change ::
  "('c, 'd, 'x) collab \<Rightarrow> ('c, 'd) Transaction \<Rightarrow> Change \<Rightarrow> int option \<Rightarrow> error + ('c, 'd) Transaction" where
  "change X tr c mirror =
     (case ensureOpen tr of
        Inl e \<Rightarrow> Inl e
      | Inr u \<Rightarrow>
          if c_from c = c_to c \<and> c_length c = 0 then Inr tr
          else if c_from c < 0 \<or> c_to c < c_from c \<or> c_to c > text_length X (doc tr)
          then Inl (InvalidChange (c_from c) (c_to c))
          else Inr (tr\<lparr>changes := cs_append (changes tr) c mirror,
                       docs := docs tr @ [change_apply X c (doc tr)],
                       selection := selection_map X (selection tr) c\<rparr>))"

definition docChanged :: "('c, 'd) Transaction \<Rightarrow> bool" where
  "docChanged tr = (cs_length (changes tr) > 0)"

definition setSelection ::
  "('c, 'd, 'x) collab \<Rightarrow> ('c, 'd) Transaction \<Rightarrow> EditorSelection \<Rightarrow> error + ('c, 'd) Transaction" where
  "setSelection X tr sel =
     (case ensureOpen tr of
        Inl e \<Rightarrow> Inl e
      | Inr u \<Rightarrow>
          Inr (tr\<lparr>selection :=
                     (if allowMultiple X (es_configuration (startState tr)) (Some (startState tr))
                      then sel else selection_asSingle X sel),
                   flags := flags tr OR 1\<rparr>))"

definition selectionSet :: "('c, 'd) Transaction \<Rightarrow> bool" where
  "selectionSet tr = (flags tr AND 1 > 0)"

definition scrollIntoView :: "('c, 'd) Transaction \<Rightarrow> error + ('c, 'd) Transaction" where
  "scrollIntoView tr =
     (case ensureOpen tr of
        Inl e \<Rightarrow> Inl e
      | Inr u \<Rightarrow> Inr (tr\<lparr>flags := flags tr OR 2\<rparr>))"

definition scrolledIntoView :: "('c, 'd) Transaction \<Rightarrow> bool" where
  "scrolledIntoView tr = (flags tr AND 2 > 0)"

definition replaceExtensions ::
  "('c, 'd, 'x) collab \<Rightarrow> ('c, 'd) Transaction \<Rightarrow> 'x list \<Rightarrow> error + ('c, 'd) Transaction" where
  "replaceExtensions X tr xs =
     (case ensureOpen tr of
        Inl e \<Rightarrow> Inl e
      | Inr u \<Rightarrow> Inr (tr\<lparr>configuration := cfg_replaceExtensions X (configuration tr) xs,
                          flags := flags tr OR 4\<rparr>))"

definition reconfigure ::
  "('c, 'd, 'x) collab \<Rightarrow> ('c, 'd) Transaction \<Rightarrow> 'x list \<Rightarrow> error + ('c, 'd) Transaction" where
  "reconfigure X tr xs =
     (case ensureOpen tr of
        Inl e \<Rightarrow> Inl e
      | Inr u \<Rightarrow> Inr (tr\<lparr>configuration := resolve X xs, flags := flags tr OR 4\<rparr>))"

definition reconfigured :: "('c, 'd) Transaction \<Rightarrow> bool" where
  "reconfigured tr = (flags tr AND 4 > 0)"

text \<open>
  \<open>forEachRange(f)\<close>. The callback gets the mapped range and the transaction, may update
  the transaction, and returns a range or raises. The loop carries \<open>newRanges\<close> and the
  transaction; \<open>start\<close> and the ranges of \<open>sel\<close> are fixed before it, and
  \<open>before_length\<close> is the variable \<open>before\<close>.
\<close>

type_synonym ('c, 'd) range_callback =
  "SelectionRange \<Rightarrow> ('c, 'd) Transaction \<Rightarrow> error + (SelectionRange \<times> ('c, 'd) Transaction)"

fun forEachRange_loop ::
  "('c, 'd, 'x) collab \<Rightarrow> ('c, 'd) range_callback \<Rightarrow> int \<Rightarrow> SelectionRange list \<Rightarrow>
   SelectionRange list \<Rightarrow> ('c, 'd) Transaction \<Rightarrow> error + (SelectionRange list \<times> ('c, 'd) Transaction)" where
  "forEachRange_loop X f start [] newRanges tr = Inr (newRanges, tr)"
| "forEachRange_loop X f start (r # rest) newRanges tr =
     (let before_length = cs_length (changes tr) in
      case f (range_map X r (changes tr) start) tr of
        Inl e \<Rightarrow> Inl e
      | Inr (result, tr') \<Rightarrow>
          forEachRange_loop X f start rest
            ((if cs_length (changes tr') > before_length
              then map (\<lambda>n. range_map X n (changes tr') before_length) newRanges
              else newRanges) @ [result])
            tr')"

definition forEachRange ::
  "('c, 'd, 'x) collab \<Rightarrow> ('c, 'd) Transaction \<Rightarrow> ('c, 'd) range_callback \<Rightarrow> error + ('c, 'd) Transaction" where
  "forEachRange X tr f =
     (let sel = selection tr; start = cs_length (changes tr) in
      case forEachRange_loop X f start (ranges sel) [] tr of
        Inl e \<Rightarrow> Inl e
      | Inr (newRanges, tr') \<Rightarrow>
          setSelection X tr' (selection_create X newRanges (primaryIndex sel)))"

text \<open>
  \<open>apply()\<close>: \<open>this.state || (this.state = this.startState.applyTransaction(this))\<close>.
  The result is the state returned together with the transaction as it is afterwards.
\<close>

definition apply_transaction ::
  "('c, 'd, 'x) collab \<Rightarrow> ('c, 'd) Transaction \<Rightarrow> error + (('c, 'd) EditorState \<times> ('c, 'd) Transaction)" where
  "apply_transaction X tr =
     (case state tr of
        Some s \<Rightarrow> Inr (s, tr)
      | None \<Rightarrow>
          (case applyTransaction X (startState tr) tr of
             Inl e \<Rightarrow> Inl e
           | Inr s \<Rightarrow> Inr (s, tr\<lparr>state := Some s\<rparr>)))"

text \<open>An array read \<open>xs[i]\<close>: \<open>undefined\<close> (\<open>None\<close>) out of range.\<close>

definition array_get :: "'a list \<Rightarrow> int \<Rightarrow> 'a option" where
  "array_get xs i = (if 0 \<le> i \<and> i < int (length xs) then Some (xs ! nat i) else None)"

text \<open>
  \<open>invertedChanges()\<close>. The loop \<open>for (i = set.length - 1; i >= 0; i--)\<close> has \<open>n = i + 1\<close>
  as its counter and \<open>acc\<close> as the array \<open>changes\<close> it pushes onto; \<open>cset\<close> is the
  variable \<open>set\<close>.
\<close>

fun inverted_loop ::
  "('c, 'd, 'x) collab \<Rightarrow> ('c, 'd) Transaction \<Rightarrow> nat \<Rightarrow> Change list \<Rightarrow> error + Change list" where
  "inverted_loop X tr 0 acc = Inr acc"
| "inverted_loop X tr (Suc i) acc =
     (case change_invert X (cs_changes (changes tr) ! i)
             (if i = 0 then Some (es_doc (startState tr)) else array_get (docs tr) (int i - 1)) of
        Inl e \<Rightarrow> Inl e
      | Inr c \<Rightarrow> inverted_loop X tr i (acc @ [c]))"

definition invertedChanges ::
  "('c, 'd, 'x) collab \<Rightarrow> ('c, 'd) Transaction \<Rightarrow> error + ChangeSet" where
  "invertedChanges X tr =
     (if cs_length (changes tr) = 0 then Inr ChangeSet_empty
      else
        let cset = changes tr in
        case inverted_loop X tr (nat (cs_length cset)) [] of
          Inl e \<Rightarrow> Inl e
        | Inr chs \<Rightarrow>
            Inr \<lparr>cs_changes = chs,
                 cs_mirror = (if length (cs_mirror cset) \<noteq> 0
                              then map (\<lambda>i. cs_length cset - i - 1) (cs_mirror cset)
                              else cs_mirror cset)\<rparr>)"

section \<open>ContentView: dirty marks\<close>

text \<open>
  \<open>Dirty.Not = 0\<close>, \<open>Dirty.Child = 1\<close>, \<open>Dirty.Node = 2\<close>; the field \<open>dirty\<close> is a set of
  these bits. Content views are objects that point at their parent, so they live in a
  store from addresses to objects. \<open>markDirty\<close> and \<open>markParentsDirty\<close> read and write
  \<open>parent\<close> and \<open>dirty\<close> only; the other fields are left out.
\<close>

definition Dirty_Not :: nat where "Dirty_Not = 0"
definition Dirty_Child :: nat where "Dirty_Child = 1"
definition Dirty_Node :: nat where "Dirty_Node = 2"

record ContentView =
  parent :: "nat option"
  dirty :: nat

type_synonym store = "nat \<Rightarrow> ContentView"

text \<open>\<open>view.dirty |= bits\<close> on the object at address \<open>a\<close>.\<close>

definition set_dirty :: "store \<Rightarrow> nat \<Rightarrow> nat \<Rightarrow> store" where
  "set_dirty h a bits = h(a := (h a)\<lparr>dirty := dirty (h a) OR bits\<rparr>)"

text \<open>
  \<open>markParentsDirty(childList)\<close>, started at \<open>p = this.parent\<close>: the loop
  \<open>for (parent = this.parent; parent; parent = parent.parent)\<close>. It is not known to end
  on every store, so the result is \<open>None\<close> when it does not.
\<close>

partial_function (option) markParentsDirty_from :: "store \<Rightarrow> nat option \<Rightarrow> bool \<Rightarrow> store option" where
  "markParentsDirty_from h p childList =
     (case p of
        None \<Rightarrow> Some h
      | Some a \<Rightarrow>
          (let h1 = (if childList then set_dirty h a Dirty_Node else h) in
           if dirty (h1 a) AND Dirty_Child \<noteq> 0 then Some h1
           else markParentsDirty_from (set_dirty h1 a Dirty_Child) (parent (h1 a)) False))"

definition markParentsDirty :: "store \<Rightarrow> nat \<Rightarrow> bool \<Rightarrow> store option" where
  "markParentsDirty h this childList = markParentsDirty_from h (parent (h this)) childList"

text \<open>\<open>markDirty(andParent = false)\<close>; \<open>andParent\<close> is \<open>None\<close> when the argument is left out.\<close>

definition markDirty :: "store \<Rightarrow> nat \<Rightarrow> bool option \<Rightarrow> store option" where
  "markDirty h this andParent =
     (if dirty (h this) AND Dirty_Node \<noteq> 0 then Some h
      else markParentsDirty (set_dirty h this Dirty_Node) this
             (case andParent of None \<Rightarrow> False | Some b \<Rightarrow> b))"

section \<open>A reference instance of the collaborators\<close>

text \<open>
  Modelled from the spec: \<open>Text\<close>, \<open>Change.apply\<close>, \<open>Change.invert\<close>, the position
  mapping of \<open>SelectionRange\<close> and \<open>EditorSelection\<close>, and the configuration resolver are
  missing from the sources. This instance follows the spec's words and serves to run the
  model on concrete inputs; the theorems below hold for any instance.
  \<^item> The document is a "text buffer exposing length": a string, a line break counting as
    one character; a configuration is the list of its extensions.
  \<^item> A change will "replace document range \<open>[from,to)\<close> with given line-split content";
    its inverse puts the replaced text back in place of the inserted one.
  \<^item> A range "maps through a Change/ChangeSet by shifting/clamping around edited spans":
    a position after the replaced span shifts by the size delta, one inside it moves to
    its start.
  \<^item> \<open>asSingle()\<close> "collapses to one range", the primary one. \<open>create\<close> takes the ranges
    as given, which is what the spec asks for ranges that are sorted and disjoint, as the
    ones used below are. The JSON form of a selection is kept to a number, for a cursor at
    that position.
  \<^item> Extension \<open>1\<close> allows multiple selections; an extension \<open>n \<ge> 10\<close> declares a state
    field with id \<open>n\<close> that counts the changes of the transactions applied. Replacing
    extensions puts the new ones in front.
\<close>

fun join_lines :: "string list \<Rightarrow> string" where
  "join_lines [] = []"
| "join_lines [l] = l"
| "join_lines (l # ls) = l @ CHR 0x0A # join_lines ls"

definition ref_inserted :: "Change \<Rightarrow> int" where
  "ref_inserted c = int (length (join_lines (c_text c)))"

definition ref_apply :: "Change \<Rightarrow> string \<Rightarrow> string" where
  "ref_apply c d = take (nat (c_from c)) d @ join_lines (c_text c) @ drop (nat (c_to c)) d"

definition ref_invert :: "Change \<Rightarrow> string option \<Rightarrow> error + Change" where
  "ref_invert c d =
     (case d of
        None \<Rightarrow> Inl (Thrown 0)
      | Some s \<Rightarrow>
          Inr \<lparr>c_from = c_from c, c_to = c_from c + ref_inserted c,
               c_length = c_to c - c_from c,
               c_text = [take (nat (c_to c) - nat (c_from c)) (drop (nat (c_from c)) s)]\<rparr>)"

definition ref_mapPos :: "Change \<Rightarrow> int \<Rightarrow> int" where
  "ref_mapPos c pos =
     (if pos < c_from c then pos
      else if pos > c_to c then pos + (ref_inserted c - (c_to c - c_from c))
      else c_from c)"

definition ref_map_range :: "Change \<Rightarrow> SelectionRange \<Rightarrow> SelectionRange" where
  "ref_map_range c r = \<lparr>anchor = ref_mapPos c (anchor r), head = ref_mapPos c (head r)\<rparr>"

definition ref_selection_map :: "EditorSelection \<Rightarrow> Change \<Rightarrow> EditorSelection" where
  "ref_selection_map sel c = sel\<lparr>ranges := map (ref_map_range c) (ranges sel)\<rparr>"

definition ref_range_map :: "SelectionRange \<Rightarrow> ChangeSet \<Rightarrow> int \<Rightarrow> SelectionRange" where
  "ref_range_map r cset k = fold ref_map_range (drop (nat k) (cs_changes cset)) r"

definition ref_create :: "SelectionRange list \<Rightarrow> nat \<Rightarrow> EditorSelection" where
  "ref_create rs p = \<lparr>ranges = rs, primaryIndex = p\<rparr>"

definition ref_asSingle :: "EditorSelection \<Rightarrow> EditorSelection" where
  "ref_asSingle sel =
     (if length (ranges sel) = 1 then sel
      else \<lparr>ranges = [ranges sel ! primaryIndex sel], primaryIndex = 0\<rparr>)"

definition ref_fromJSON :: "val \<Rightarrow> error + EditorSelection" where
  "ref_fromJSON j = (case j of VNum n \<Rightarrow> Inr (EditorSelection_single n) | _ \<Rightarrow> Inl (Thrown 1))"

definition ref_field :: "nat \<Rightarrow> (nat list, string) StateField" where
  "ref_field n =
     \<lparr>field_id = n,
      field_init = (\<lambda>st. Inr (VNum 0)),
      field_apply = (\<lambda>tr v st. Inr (case v of VNum k \<Rightarrow> VNum (k + cs_length (changes tr)) | _ \<Rightarrow> v))\<rparr>"

definition ref_collab :: "(nat list, string, nat) collab" where
  "ref_collab =
     \<lparr>text_length = (\<lambda>d. int (length d)),
      text_of_string = (\<lambda>cfg s. s),
      change_apply = ref_apply,
      change_invert = ref_invert,
      selection_map = ref_selection_map,
      range_map = ref_range_map,
      selection_create = ref_create,
      selection_asSingle = ref_asSingle,
      selection_fromJSON = ref_fromJSON,
      allowMultiple = (\<lambda>cfg st. 1 \<in> set cfg),
      stateFields = (\<lambda>cfg st. map ref_field (filter (\<lambda>n. 10 \<le> n) cfg)),
      resolve = (\<lambda>xs. xs),
      cfg_replaceExtensions = (\<lambda>cfg xs. xs @ cfg)\<rparr>"

section \<open>Notions the statements use\<close>

text \<open>The annotations of a given type, in the order of the list.\<close>

definition with_type :: "ann_type \<Rightarrow> Annotation list \<Rightarrow> Annotation list" where
  "with_type ty anns = filter (\<lambda>a. a_type a = ty) anns"

text \<open>The two tests of \<open>change\<close>: the empty edit, and the bounds that raise.\<close>

definition noop_change :: "Change \<Rightarrow> bool" where
  "noop_change c = (c_from c = c_to c \<and> c_length c = 0)"

definition bad_range :: "('c, 'd, 'x) collab \<Rightarrow> ('c, 'd) Transaction \<Rightarrow> Change \<Rightarrow> bool" where
  "bad_range X tr c = (c_from c < 0 \<or> c_to c < c_from c \<or> c_to c > text_length X (doc tr))"

text \<open>The invariant of a state: no selection range ends after the document.\<close>

definition selection_in_bounds :: "('c, 'd, 'x) collab \<Rightarrow> ('c, 'd) EditorState \<Rightarrow> bool" where
  "selection_in_bounds X st =
     list_all (\<lambda>r. range_to r \<le> text_length X (es_doc st)) (ranges (es_selection st))"

text \<open>
  A callback of \<open>forEachRange\<close> that leaves an applied transaction applied, as every
  callback does that acts on the transaction through its methods.
\<close>

definition keeps_applied :: "('c, 'd) range_callback \<Rightarrow> bool" where
  "keeps_applied f = (\<forall>r u r' u'. state u \<noteq> None \<and> f r u = Inr (r', u') \<longrightarrow> state u' \<noteq> None)"

text \<open>
  The bounds a change must keep to be recorded by \<open>change\<close>, against the document it is
  applied to.
\<close>

definition valid_change :: "('c, 'd, 'x) collab \<Rightarrow> Change \<Rightarrow> 'd \<Rightarrow> bool" where
  "valid_change X c d = (0 \<le> c_from c \<and> c_from c \<le> c_to c \<and> c_to c \<le> text_length X d)"

text \<open>
  What \<open>invertedChanges\<close> needs of \<open>Change.invert\<close>, whose code is not at hand: given the
  document a change within bounds was applied to, it returns a change that takes the
  changed document back to that document.
\<close>

definition invert_undoes :: "('c, 'd, 'x) collab \<Rightarrow> bool" where
  "invert_undoes X =
     (\<forall>c d. valid_change X c d \<longrightarrow>
        (\<exists>c'. change_invert X c (Some d) = Inr c'
              \<and> change_apply X c' (change_apply X c d) = d))"

text \<open>
  The invariant the constructor sets up and every method keeps: \<open>docs\<close> holds, for each
  recorded change in turn, the document that results from applying it to the one before,
  each change is within the bounds of the document it was applied to, and a change set
  without changes has no mirror entries.
\<close>

fun snapshots :: "('c, 'd, 'x) collab \<Rightarrow> 'd \<Rightarrow> Change list \<Rightarrow> 'd list \<Rightarrow> bool" where
  "snapshots X d0 [] [] = True"
| "snapshots X d0 (c # cs) (d # ds) =
     (valid_change X c d0 \<and> d = change_apply X c d0 \<and> snapshots X d cs ds)"
| "snapshots X d0 cs ds = False"

definition consistent :: "('c, 'd, 'x) collab \<Rightarrow> ('c, 'd) Transaction \<Rightarrow> bool" where
  "consistent X tr =
     (snapshots X (es_doc (startState tr)) (cs_changes (changes tr)) (docs tr)
      \<and> (cs_changes (changes tr) = [] \<longrightarrow> cs_mirror (changes tr) = []))"

text \<open>The document before change number \<open>i\<close>: the start document, or \<open>docs[i - 1]\<close>.\<close>

definition doc_before :: "'d \<Rightarrow> 'd list \<Rightarrow> nat \<Rightarrow> 'd" where
  "doc_before d0 ds i = (if i = 0 then d0 else ds ! (i - 1))"

text \<open>
  The calls of the callback that one \<open>forEachRange\<close> makes, in order: for each, the
  transaction as the call finds it, the range passed, the range returned and the
  transaction as the call leaves it. \<open>invocations\<close> runs the calls one after the other,
  each on the transaction the one before left, without collecting anything.
\<close>

record ('c, 'd) invocation =
  inv_before :: "('c, 'd) Transaction"
  inv_arg :: SelectionRange
  inv_result :: SelectionRange
  inv_after :: "('c, 'd) Transaction"

fun invocations ::
  "('c, 'd, 'x) collab \<Rightarrow> ('c, 'd) range_callback \<Rightarrow> int \<Rightarrow> SelectionRange list \<Rightarrow>
   ('c, 'd) Transaction \<Rightarrow> error + ('c, 'd) invocation list" where
  "invocations X f start [] tr = Inr []"
| "invocations X f start (r # rs) tr =
     (case f (range_map X r (changes tr) start) tr of
        Inl e \<Rightarrow> Inl e
      | Inr (res, tr') \<Rightarrow>
          (case invocations X f start rs tr' of
             Inl e \<Rightarrow> Inl e
           | Inr invs \<Rightarrow>
               Inr (\<lparr>inv_before = tr, inv_arg = range_map X r (changes tr) start,
                     inv_result = res, inv_after = tr'\<rparr> # invs)))"

text \<open>
  A collected range after a call: mapped through the changes the call appended, that is
  through \<open>changes.partialMapping(before)\<close> of the change set after the call, when the
  call made the change set longer, and left alone otherwise.
\<close>

definition remap_after :: "('c, 'd, 'x) collab \<Rightarrow> ('c, 'd) invocation \<Rightarrow> SelectionRange \<Rightarrow> SelectionRange" where
  "remap_after X i r =
     (if cs_length (changes (inv_after i)) > cs_length (changes (inv_before i))
      then range_map X r (changes (inv_after i)) (cs_length (changes (inv_before i)))
      else r)"

text \<open>
  The collected ranges after a call: the ones collected before, each remapped, and then
  the range the call returned.
\<close>

definition collect :: "('c, 'd, 'x) collab \<Rightarrow> SelectionRange list \<Rightarrow> ('c, 'd) invocation \<Rightarrow> SelectionRange list" where
  "collect X collected i = map (remap_after X i) collected @ [inv_result i]"

definition last_transaction :: "('c, 'd) Transaction \<Rightarrow> ('c, 'd) invocation list \<Rightarrow> ('c, 'd) Transaction" where
  "last_transaction tr invs = (if invs = [] then tr else inv_after (last invs))"

text \<open>
  The chain of ancestors of a view: \<open>ancestors h p as\<close> holds when following \<open>parent\<close>
  from the pointer \<open>p\<close> visits the addresses \<open>as\<close> in turn and then reaches \<open>null\<close>.
\<close>

fun ancestors :: "store \<Rightarrow> nat option \<Rightarrow> nat list \<Rightarrow> bool" where
  "ancestors h p [] = (p = None)"
| "ancestors h p (a # as) = (p = Some a \<and> ancestors h (parent (h a)) as)"

text \<open>A view whose \<open>dirty\<close> has the bit \<open>Dirty.Child\<close> clear.\<close>

definition lacks_child :: "store \<Rightarrow> nat \<Rightarrow> bool" where
  "lacks_child h a = (dirty (h a) AND Dirty_Child = 0)"

text \<open>The store with \<open>dirty |= bits\<close> done on every view of a set.\<close>

definition mark_set :: "store \<Rightarrow> nat set \<Rightarrow> nat \<Rightarrow> store" where
  "mark_set h S bits = (\<lambda>x. if x \<in> S then (h x)\<lparr>dirty := dirty (h x) OR bits\<rparr> else h x)"

text \<open>The field \<open>dirty\<close> of the view at an address, in the store an operation returned.\<close>

definition dirty_at :: "store option \<Rightarrow> nat \<Rightarrow> nat option" where
  "dirty_at r a = map_option (\<lambda>h. dirty (h a)) r"

section \<open>Concrete inputs\<close>

text \<open>
  A state over the document \<open>abc\<close> that allows multiple selections, a transaction started
  from it at time 1000, some annotations and some changes.
\<close>

definition st0 :: "(nat list, string) EditorState" where
  "st0 = \<lparr>es_configuration = [1], es_values = Map.empty, es_doc = ''abc'',
          es_selection = EditorSelection_single 0\<rparr>"

definition tr0 :: "(nat list, string) Transaction" where
  "tr0 = new_Transaction st0 (Some 1000) 0"

definition anns0 :: "Annotation list" where
  "anns0 = [\<lparr>a_type = UserEvent, a_value = VStr ''paste''\<rparr>,
            \<lparr>a_type = AddToHistory, a_value = VBool False\<rparr>,
            \<lparr>a_type = UserEvent, a_value = VStr ''cut''\<rparr>]"

definition c_noop :: Change where
  "c_noop = \<lparr>c_from = - 5, c_to = - 5, c_length = 0, c_text = []\<rparr>"

definition c_bad :: Change where
  "c_bad = \<lparr>c_from = 2, c_to = 9, c_length = 1, c_text = [''X'']\<rparr>"

definition c_X :: Change where
  "c_X = \<lparr>c_from = 1, c_to = 2, c_length = 1, c_text = [''X'']\<rparr>"

definition sel_neg :: EditorSelection where
  "sel_neg = \<lparr>ranges = [\<lparr>anchor = - 5, head = 2\<rparr>], primaryIndex = 0\<rparr>"

definition config0 :: "(string, nat) EditorStateConfig" where
  "config0 = \<lparr>config_doc = DocString ''abc'', config_selection = Some (EditorSelection_single 2),
              config_extensions = Some [1, 10]\<rparr>"

definition st1 :: "(nat list, string) EditorState" where
  "st1 = \<lparr>es_configuration = [1, 10], es_values = [10 \<mapsto> VNum 0], es_doc = ''abc'',
          es_selection = EditorSelection_single 2\<rparr>"

text \<open>
  The transaction \<open>tr0\<close> after \<open>setSelection\<close> with a cursor at 10, which is beyond the
  document; a callback that returns its range and leaves the transaction alone.
\<close>

definition tr_bad :: "(nat list, string) Transaction" where
  "tr_bad = tr0\<lparr>selection := EditorSelection_single 10, flags := 1\<rparr>"

definition f_keep :: "(nat list, string) range_callback" where
  "f_keep r u = Inr (r, u)"

text \<open>The transaction \<open>tr0\<close> once applied, and a callback that raises an error of its own.\<close>

definition tr_applied :: "(nat list, string) Transaction" where
  "tr_applied = tr0\<lparr>state := Some st0\<rparr>"

definition f_throw :: "(nat list, string) range_callback" where
  "f_throw r u = Inl (Thrown 7)"

text \<open>
  Two changes in a row on \<open>tr0\<close>, the second one recorded as the mirror of the first,
  and the change set that inverts them.
\<close>

definition c_Y :: Change where
  "c_Y = \<lparr>c_from = 0, c_to = 1, c_length = 2, c_text = [''YY'']\<rparr>"

definition tr_X :: "(nat list, string) Transaction" where
  "tr_X = tr0\<lparr>changes := \<lparr>cs_changes = [c_X], cs_mirror = []\<rparr>, docs := [''aXc'']\<rparr>"

definition tr_XY :: "(nat list, string) Transaction" where
  "tr_XY = tr0\<lparr>changes := \<lparr>cs_changes = [c_X, c_Y], cs_mirror = [1, 0]\<rparr>,
               docs := [''aXc'', ''YYXc'']\<rparr>"

definition inv_XY :: ChangeSet where
  "inv_XY = \<lparr>cs_changes = [\<lparr>c_from = 0, c_to = 2, c_length = 1, c_text = [''a'']\<rparr>,
                            \<lparr>c_from = 1, c_to = 2, c_length = 1, c_text = [''b'']\<rparr>],
             cs_mirror = [0, 1]\<rparr>"

text \<open>
  A state with two cursors and a transaction started from it; the callback of
  \<open>replaceSelection("X")\<close>, which replaces the range by \<open>X\<close> and returns a cursor after it;
  the transaction after the first and the second call, the two calls, and the result.
\<close>

definition st_multi :: "(nat list, string) EditorState" where
  "st_multi = \<lparr>es_configuration = [1], es_values = Map.empty, es_doc = ''abc'',
     es_selection = \<lparr>ranges = [\<lparr>anchor = 0, head = 0\<rparr>, \<lparr>anchor = 2, head = 2\<rparr>], primaryIndex = 1\<rparr>\<rparr>"

definition tr_multi :: "(nat list, string) Transaction" where
  "tr_multi = new_Transaction st_multi None 5"

definition f_ins :: "(nat list, string) range_callback" where
  "f_ins r u =
     (case change ref_collab u \<lparr>c_from = range_from r, c_to = range_to r, c_length = 1, c_text = [''X'']\<rparr> None of
        Inl e \<Rightarrow> Inl e
      | Inr u' \<Rightarrow> Inr (\<lparr>anchor = range_from r + 1, head = range_from r + 1\<rparr>, u'))"

definition c_ins :: "int \<Rightarrow> Change" where
  "c_ins pos = \<lparr>c_from = pos, c_to = pos, c_length = 1, c_text = [''X'']\<rparr>"

definition sel_moved :: EditorSelection where
  "sel_moved = \<lparr>ranges = [\<lparr>anchor = 0, head = 0\<rparr>, \<lparr>anchor = 3, head = 3\<rparr>], primaryIndex = 1\<rparr>"

definition tr_multi1 :: "(nat list, string) Transaction" where
  "tr_multi1 = tr_multi\<lparr>changes := \<lparr>cs_changes = [c_ins 0], cs_mirror = []\<rparr>,
                        docs := [''Xabc''], selection := sel_moved\<rparr>"

definition tr_multi2 :: "(nat list, string) Transaction" where
  "tr_multi2 = tr_multi\<lparr>changes := \<lparr>cs_changes = [c_ins 0, c_ins 3], cs_mirror = []\<rparr>,
                        docs := [''Xabc'', ''XabXc''], selection := sel_moved\<rparr>"

definition invs_multi :: "(nat list, string) invocation list" where
  "invs_multi =
     [\<lparr>inv_before = tr_multi, inv_arg = \<lparr>anchor = 0, head = 0\<rparr>,
       inv_result = \<lparr>anchor = 1, head = 1\<rparr>, inv_after = tr_multi1\<rparr>,
      \<lparr>inv_before = tr_multi1, inv_arg = \<lparr>anchor = 3, head = 3\<rparr>,
       inv_result = \<lparr>anchor = 4, head = 4\<rparr>, inv_after = tr_multi2\<rparr>]"

definition tr_multi_done :: "(nat list, string) Transaction" where
  "tr_multi_done =
     tr_multi2\<lparr>selection := \<lparr>ranges = [\<lparr>anchor = 1, head = 1\<rparr>, \<lparr>anchor = 4, head = 4\<rparr>],
                              primaryIndex = 1\<rparr>,
               flags := 1\<rparr>"

text \<open>
  Three views, \<open>0\<close> the child of \<open>1\<close> and \<open>1\<close> the child of the root \<open>2\<close>. In \<open>store_A\<close>
  view \<open>1\<close> is self-dirty only and the others are clean; in \<open>store_B\<close> the root is
  child-dirty as well, as it is after \<open>markDirty\<close> on view \<open>1\<close> in a clean tree.
\<close>

definition store_A :: store where
  "store_A = (\<lambda>a. \<lparr>parent = None, dirty = Dirty_Not\<rparr>)
     (0 := \<lparr>parent = Some 1, dirty = Dirty_Not\<rparr>, 1 := \<lparr>parent = Some 2, dirty = Dirty_Node\<rparr>)"

definition store_B :: store where
  "store_B = store_A(2 := \<lparr>parent = None, dirty = Dirty_Child\<rparr>)"

section \<open>Annotations\<close>

lemma annotations_loop_eq:
  "annotations_loop anns ty found = found @ map a_value (with_type ty anns)"
  by (induction anns arbitrary: found) (simp_all add: with_type_def)

lemma annotation_from_eq:
  "n \<le> length anns \<Longrightarrow>
   annotation_from anns ty n =
     (if with_type ty (take n anns) = [] then VUndefined
      else a_value (last (with_type ty (take n anns))))"
proof (induction n)
  case 0
  then show ?case by (simp add: with_type_def)
next
  case (Suc n)
  then have "take (Suc n) anns = take n anns @ [anns ! n]"
    by (simp add: take_Suc_conv_app_nth)
  with Suc show ?case by (simp add: with_type_def)
qed

text \<open>
  Claim C8. The list \<open>_annotations\<close> holds the annotations in the order they were added:
  \<open>annotate\<close> on an open transaction appends its arguments at the end. For every
  transaction and annotation type, \<open>annotation(type)\<close> returns the value of the last
  annotation of that type in the list, and \<open>undefined\<close> when the list has none of that
  type; \<open>annotations(type)\<close> returns the values of all annotations of that type, in the
  order of the list.
\<close>

theorem annotation_lookup:
  "annotation tr ty =
     (if with_type ty (priv_annotations tr) = [] then VUndefined
      else a_value (last (with_type ty (priv_annotations tr))))
   \<and> annotations tr ty = map a_value (with_type ty (priv_annotations tr))
   \<and> annotate tr anns =
       (if state tr = None then Inr (tr\<lparr>priv_annotations := priv_annotations tr @ anns\<rparr>)
        else Inl TransactionApplied)"
  by (auto simp add: annotation_def annotations_def annotation_from_eq annotations_loop_eq
      annotate_def ensureOpen_def split: option.splits)

theorem annotation_lookup_witness:
  "annotation (tr0\<lparr>priv_annotations := priv_annotations tr0 @ anns0\<rparr>) UserEvent = VStr ''cut''
   \<and> annotations (tr0\<lparr>priv_annotations := priv_annotations tr0 @ anns0\<rparr>) UserEvent =
       [VStr ''paste'', VStr ''cut'']
   \<and> annotation tr0 UserEvent = VUndefined
   \<and> annotate tr0 anns0 = Inr (tr0\<lparr>priv_annotations := priv_annotations tr0 @ anns0\<rparr>)"
  using annotation_lookup [of "tr0\<lparr>priv_annotations := priv_annotations tr0 @ anns0\<rparr>" UserEvent anns0]
    annotation_lookup [of tr0 UserEvent anns0]
  by (simp add: tr0_def new_Transaction_def anns0_def with_type_def Transaction_time_def)

text \<open>
  Claim C9. A transaction as the constructor leaves it carries exactly one annotation, the
  time annotation whose value is the timestamp passed to the constructor, or the current
  time when none is passed. So \<open>annotations(Transaction.time)\<close> is the one-element list of
  that timestamp and \<open>annotation(Transaction.time)\<close> is that timestamp, before any call of
  \<open>annotate\<close>. \<open>EditorState.t\<close> is this constructor.
\<close>

theorem fresh_transaction_time:
  "priv_annotations (new_Transaction st time now) =
     [Transaction_time (case time of None \<Rightarrow> now | Some ts \<Rightarrow> ts)]
   \<and> annotations (new_Transaction st time now) Time =
       [VNum (case time of None \<Rightarrow> now | Some ts \<Rightarrow> ts)]
   \<and> annotation (new_Transaction st time now) Time =
       VNum (case time of None \<Rightarrow> now | Some ts \<Rightarrow> ts)
   \<and> t st time now = new_Transaction st time now"
  by (simp add: new_Transaction_def annotation_def annotations_def Transaction_time_def t_def)

section \<open>Adding a change\<close>

text \<open>
  Claim C3. For an open transaction the three cases of \<open>change\<close>, in the order the method
  tests them: an empty edit (\<open>from = to\<close> and \<open>length = 0\<close>) returns the transaction as
  it is, whatever its position; otherwise a change with \<open>from < 0\<close>, \<open>to < from\<close> or
  \<open>to\<close> beyond the length of the current document raises a range error; otherwise the
  change is appended to the change set, the document that results from applying it to the
  current document is pushed onto \<open>docs\<close>, and the selection is replaced by the selection
  mapped through the change.
\<close>

theorem change_cases:
  assumes "state tr = None"
  shows "(noop_change c \<longrightarrow> change X tr c mirror = Inr tr)
    \<and> (\<not> noop_change c \<and> bad_range X tr c \<longrightarrow>
          change X tr c mirror = Inl (InvalidChange (c_from c) (c_to c))
          \<and> is_RangeError (InvalidChange (c_from c) (c_to c)))
    \<and> (\<not> noop_change c \<and> \<not> bad_range X tr c \<longrightarrow>
          change X tr c mirror =
            Inr (tr\<lparr>changes := cs_append (changes tr) c mirror,
                     docs := docs tr @ [change_apply X c (doc tr)],
                     selection := selection_map X (selection tr) c\<rparr>)
          \<and> cs_changes (cs_append (changes tr) c mirror) = cs_changes (changes tr) @ [c])"
  using assms
  by (simp add: change_def ensureOpen_def noop_change_def bad_range_def cs_append_def)

lemma doc_tr0: "doc tr0 = ''abc''"
  by (simp add: doc_def tr0_def new_Transaction_def st0_def)

lemma state_tr0: "state tr0 = None"
  by (simp add: tr0_def new_Transaction_def)

theorem change_cases_witness:
  "state tr0 = None
   \<and> change ref_collab tr0 c_noop None = Inr tr0
   \<and> change ref_collab tr0 c_bad None = Inl (InvalidChange 2 9)
   \<and> change ref_collab tr0 c_X None =
       Inr (tr0\<lparr>changes := \<lparr>cs_changes = [c_X], cs_mirror = []\<rparr>,
                 docs := [''aXc''],
                 selection := EditorSelection_single 0\<rparr>)"
proof -
  note o = state_tr0
  have n: "noop_change c_noop" "\<not> noop_change c_bad" "\<not> noop_change c_X"
    by (simp_all add: noop_change_def c_noop_def c_bad_def c_X_def)
  have b: "bad_range ref_collab tr0 c_bad" "\<not> bad_range ref_collab tr0 c_X"
    by (simp_all add: bad_range_def doc_tr0 ref_collab_def c_bad_def c_X_def)
  have a: "change_apply ref_collab c_X (doc tr0) = ''aXc''"
    by (simp add: doc_tr0 ref_collab_def ref_apply_def c_X_def)
  have s: "selection_map ref_collab (selection tr0) c_X = EditorSelection_single 0"
    by (simp add: tr0_def new_Transaction_def st0_def ref_collab_def ref_selection_map_def
        EditorSelection_single_def ref_map_range_def ref_mapPos_def c_X_def)
  have e: "cs_append (changes tr0) c_X None = \<lparr>cs_changes = [c_X], cs_mirror = []\<rparr>"
    "docs tr0 = []"
    by (simp_all add: tr0_def new_Transaction_def cs_append_def ChangeSet_empty_def)
  show ?thesis
    using change_cases [OF o, of c_noop ref_collab None]
      change_cases [OF o, of c_bad ref_collab None]
      change_cases [OF o, of c_X ref_collab None] n b a s e o
    by (simp add: c_bad_def)
qed

section \<open>Constructing a state\<close>

lemma check_ranges_ok:
  "check_ranges len rs =
     (if list_all (\<lambda>r. range_to r \<le> len) rs then Inr () else Inl SelectionOutsideDocument)"
  by (induction rs) auto

lemma new_EditorState_eq:
  "new_EditorState X cfg vals d sel =
     (if list_all (\<lambda>r. range_to r \<le> text_length X d) (ranges sel)
      then Inr \<lparr>es_configuration = cfg, es_values = vals, es_doc = d, es_selection = sel\<rparr>
      else Inl SelectionOutsideDocument)"
  by (simp add: new_EditorState_def check_ranges_ok)

text \<open>
  Claim C10. The constructor of \<open>EditorState\<close> compares each selection range with the
  length of the document only: when every range ends at or before the end of the document
  the state is constructed with the selection as given, also when a range of it has a
  negative anchor or head, and so starts before the document.
\<close>

theorem negative_positions_accepted:
  assumes "\<forall>q \<in> set (ranges sel). range_to q \<le> text_length X d"
    and "r \<in> set (ranges sel)" and "anchor r < 0 \<or> head r < 0"
  shows "new_EditorState X cfg vals d sel =
           Inr \<lparr>es_configuration = cfg, es_values = vals, es_doc = d, es_selection = sel\<rparr>
         \<and> range_from r < 0"
  using assms by (auto simp add: new_EditorState_eq list_all_iff range_from_def)

theorem negative_positions_accepted_witness:
  "new_EditorState ref_collab [1] Map.empty ''abc'' sel_neg =
     Inr \<lparr>es_configuration = [1], es_values = Map.empty, es_doc = ''abc'', es_selection = sel_neg\<rparr>
   \<and> range_from \<lparr>anchor = - 5, head = 2\<rparr> < 0"
proof -
  have 1: "\<forall>q \<in> set (ranges sel_neg). range_to q \<le> text_length ref_collab ''abc''"
    by (simp add: sel_neg_def range_to_def ref_collab_def)
  have 2: "\<lparr>anchor = - 5, head = 2\<rparr> \<in> set (ranges sel_neg)"
    by (simp add: sel_neg_def)
  have 3: "anchor \<lparr>anchor = - 5, head = 2\<rparr> < 0 \<or> head \<lparr>anchor = - 5, head = (2::int)\<rparr> < 0"
    by simp
  show ?thesis
    using negative_positions_accepted [OF 1 2 3, of "[1]" Map.empty] by simp
qed

lemma init_fields_frame:
  "init_fields fs st = Inr st' \<Longrightarrow>
   es_doc st' = es_doc st \<and> es_selection st' = es_selection st
   \<and> es_configuration st' = es_configuration st"
proof (induction fs arbitrary: st)
  case Nil
  then show ?case by simp
next
  case (Cons f fs)
  then show ?case
    by (fastforce simp add: Let_def split: if_splits sum.splits)
qed

lemma apply_fields_frame:
  "apply_fields tr this cfg fs st = Inr st' \<Longrightarrow>
   es_doc st' = es_doc st \<and> es_selection st' = es_selection st
   \<and> es_configuration st' = es_configuration st"
proof (induction fs arbitrary: st)
  case Nil
  then show ?case by simp
next
  case (Cons f fs)
  then show ?case
    by (fastforce simp add: Let_def split: if_splits sum.splits)
qed

lemma new_EditorState_bounds:
  "new_EditorState X cfg vals d sel = Inr st \<Longrightarrow> selection_in_bounds X st"
  by (auto simp add: new_EditorState_eq selection_in_bounds_def split: if_splits)

lemma create_bounds: "create X config = Inr st \<Longrightarrow> selection_in_bounds X st"
  unfolding create_def Let_def
  by (auto split: sum.splits dest!: new_EditorState_bounds init_fields_frame
      simp add: selection_in_bounds_def)

lemma fromJSON_bounds: "fromJSON X json config = Inr st \<Longrightarrow> selection_in_bounds X st"
  unfolding fromJSON_def
  by (auto split: option.splits val.splits sum.splits dest: create_bounds)

lemma applyTransaction_bounds:
  "applyTransaction X this tr = Inr st \<Longrightarrow> selection_in_bounds X st"
  unfolding applyTransaction_def Let_def
  by (auto split: sum.splits dest!: new_EditorState_bounds apply_fields_frame
      simp add: selection_in_bounds_def)

text \<open>
  Claim C5. Every state the constructor returns, called directly or through \<open>create\<close>,
  \<open>fromJSON\<close> or \<open>applyTransaction\<close>, has every selection range ending at or before the
  end of its document; and the constructor, given a selection with a range that ends
  after the end of the document, raises a range error and returns no state.
\<close>

theorem state_selection_in_bounds:
  "(new_EditorState X cfg vals d sel = Inr st \<longrightarrow>
      (\<forall>r \<in> set (ranges (es_selection st)). range_to r \<le> text_length X (es_doc st)))
   \<and> (create X config = Inr st \<longrightarrow>
      (\<forall>r \<in> set (ranges (es_selection st)). range_to r \<le> text_length X (es_doc st)))
   \<and> (fromJSON X json config = Inr st \<longrightarrow>
      (\<forall>r \<in> set (ranges (es_selection st)). range_to r \<le> text_length X (es_doc st)))
   \<and> (applyTransaction X this tr = Inr st \<longrightarrow>
      (\<forall>r \<in> set (ranges (es_selection st)). range_to r \<le> text_length X (es_doc st)))
   \<and> ((\<exists>r \<in> set (ranges sel). range_to r > text_length X d) \<longrightarrow>
        new_EditorState X cfg vals d sel = Inl SelectionOutsideDocument
        \<and> is_RangeError SelectionOutsideDocument)"
  using new_EditorState_bounds [of X cfg vals d sel st] create_bounds [of X config st]
    fromJSON_bounds [of X json config st] applyTransaction_bounds [of X this tr st]
  by (auto simp add: selection_in_bounds_def list_all_iff new_EditorState_eq)

lemma create_config0: "create ref_collab config0 = Inr st1"
  by (simp add: create_def config0_def st1_def ref_collab_def new_EditorState_eq
      EditorSelection_single_def range_to_def behavior_stateField_def ref_field_def values_get_def
      ref_asSingle_def)

lemma fromJSON_config0: "fromJSON ref_collab (Some (VStr ''abc'', VNum 2)) config0 = Inr st1"
  using create_config0
  by (simp add: fromJSON_def ref_collab_def ref_fromJSON_def config0_def)

lemma new_EditorState_st1:
  "new_EditorState ref_collab [1, 10] [10 \<mapsto> VNum 0] ''abc'' (EditorSelection_single 2) = Inr st1"
  by (simp add: new_EditorState_eq st1_def ref_collab_def EditorSelection_single_def range_to_def)

lemma applyTransaction_st1:
  "applyTransaction ref_collab st1 (new_Transaction st1 None 7) = Inr st1"
  by (simp add: applyTransaction_def new_Transaction_def st1_def ref_collab_def
      new_EditorState_eq EditorSelection_single_def range_to_def doc_def ref_field_def
      values_get_def cs_length_def ChangeSet_empty_def)

theorem state_selection_in_bounds_witness:
  "new_EditorState ref_collab [1, 10] [10 \<mapsto> VNum 0] ''abc'' (EditorSelection_single 2) = Inr st1
   \<and> create ref_collab config0 = Inr st1
   \<and> fromJSON ref_collab (Some (VStr ''abc'', VNum 2)) config0 = Inr st1
   \<and> applyTransaction ref_collab st1 (new_Transaction st1 None 7) = Inr st1
   \<and> range_to \<lparr>anchor = 2, head = 2\<rparr> \<le> text_length ref_collab ''abc''
   \<and> new_EditorState ref_collab [1] Map.empty ''abc'' (EditorSelection_single 10) =
       Inl SelectionOutsideDocument"
proof -
  have x: "\<exists>r \<in> set (ranges (EditorSelection_single 10)). range_to r > text_length ref_collab ''abc''"
    by (simp add: EditorSelection_single_def range_to_def ref_collab_def)
  have s: "ranges (es_selection st1) = [\<lparr>anchor = 2, head = 2\<rparr>]" "es_doc st1 = ''abc''"
    by (simp_all add: st1_def EditorSelection_single_def)
  show ?thesis
    using state_selection_in_bounds [where X = ref_collab and config = config0 and st = st1
        and cfg = "[1]" and vals = Map.empty and d = "''abc''"
        and sel = "EditorSelection_single 10"]
      create_config0 fromJSON_config0 applyTransaction_st1 new_EditorState_st1 x s
    by simp
qed

section \<open>Reading a state field\<close>

text \<open>
  Claim C7. When the state holds no value for the field: \<open>field(f)\<close> and \<open>field(f, true)\<close>
  raise a range error; \<open>field(f, false)\<close> returns \<open>undefined\<close> when the field is not
  declared in the configuration of the state; and when the field is declared there (its
  value not initialised yet), \<open>field\<close> raises a range error whatever \<open>require\<close> is. When the
  state holds a value, that value is returned.
\<close>

theorem field_lookup:
  "(field_id f \<notin> dom (es_values st) \<longrightarrow>
      (\<exists>e. field X st f None = Inl e \<and> field X st f (Some True) = Inl e \<and> is_RangeError e))
   \<and> (field_id f \<notin> dom (es_values st) \<and> f \<notin> set (behavior_stateField X st) \<longrightarrow>
        field X st f None = Inl FieldNotPresent
        \<and> field X st f (Some True) = Inl FieldNotPresent
        \<and> field X st f (Some False) = Inr VUndefined)
   \<and> (field_id f \<notin> dom (es_values st) \<and> f \<in> set (behavior_stateField X st) \<longrightarrow>
        field X st f require = Inl FieldNotInitialized \<and> is_RangeError FieldNotInitialized)
   \<and> (es_values st (field_id f) = Some v \<longrightarrow> field X st f require = Inr v)"
  by (auto simp add: field_def values_get_def Let_def split: option.splits)

theorem field_lookup_witness:
  "field ref_collab st1 (ref_field 11) None = Inl FieldNotPresent
   \<and> field ref_collab st1 (ref_field 11) (Some True) = Inl FieldNotPresent
   \<and> field ref_collab st1 (ref_field 11) (Some False) = Inr VUndefined
   \<and> field ref_collab (st1\<lparr>es_values := Map.empty\<rparr>) (ref_field 10) (Some False) =
       Inl FieldNotInitialized
   \<and> field ref_collab st1 (ref_field 10) None = Inr (VNum 0)"
proof -
  have a: "field_id (ref_field 11) \<notin> dom (es_values st1)"
    "ref_field 11 \<notin> set (behavior_stateField ref_collab st1)"
    by (simp_all add: ref_field_def st1_def behavior_stateField_def ref_collab_def)
  have b: "field_id (ref_field 10) \<notin> dom (es_values (st1\<lparr>es_values := Map.empty\<rparr>))"
    "ref_field 10 \<in> set (behavior_stateField ref_collab (st1\<lparr>es_values := Map.empty\<rparr>))"
    by (simp_all add: ref_field_def st1_def behavior_stateField_def ref_collab_def)
  have c: "es_values st1 (field_id (ref_field 10)) = Some (VNum 0)"
    by (simp add: ref_field_def st1_def)
  show ?thesis
    using field_lookup [of "ref_field 11" st1 ref_collab "Some False" "VNum 0"]
      field_lookup [of "ref_field 10" "st1\<lparr>es_values := Map.empty\<rparr>" ref_collab "Some False" "VNum 0"]
      field_lookup [of "ref_field 10" st1 ref_collab None "VNum 0"] a b c
    by simp
qed

section \<open>Applying a transaction\<close>

lemma forEachRange_loop_applied:
  "keeps_applied f \<Longrightarrow> state tr \<noteq> None \<Longrightarrow>
   forEachRange_loop X f start rs acc tr = Inr (news, tr') \<Longrightarrow> state tr' \<noteq> None"
proof (induction rs arbitrary: acc tr)
  case Nil
  then show ?case by simp
next
  case (Cons r rs)
  from Cons.prems(3) obtain res u where
    f: "f (range_map X r (changes tr) start) tr = Inr (res, u)"
    and l: "forEachRange_loop X f start rs
        ((if cs_length (changes u) > cs_length (changes tr)
          then map (\<lambda>n. range_map X n (changes u) (cs_length (changes tr))) acc
          else acc) @ [res]) u = Inr (news, tr')"
    by (auto simp add: Let_def split: sum.splits)
  from f Cons.prems(1,2) have "state u \<noteq> None"
    unfolding keeps_applied_def by blast
  with Cons.IH [OF Cons.prems(1) _ l] show ?case by simp
qed

lemma forEachRange_applied:
  assumes "keeps_applied f" and "state tr = Some s"
  shows "forEachRange X tr f =
     (case forEachRange_loop X f (cs_length (changes tr)) (ranges (selection tr)) [] tr of
        Inl e \<Rightarrow> Inl e
      | Inr p \<Rightarrow> Inl TransactionApplied)"
proof (cases "forEachRange_loop X f (cs_length (changes tr)) (ranges (selection tr)) [] tr")
  case (Inl e)
  then show ?thesis by (simp add: forEachRange_def)
next
  case (Inr p)
  obtain news tr' where p: "p = (news, tr')" by (cases p)
  from assms Inr p have "state tr' \<noteq> None"
    using forEachRange_loop_applied [of f tr X _ _ "[]" news tr'] by simp
  with Inr p show ?thesis
    by (auto simp add: forEachRange_def setSelection_def ensureOpen_def)
qed

text \<open>
  Claim C4, as amended. For a transaction with no state computed yet, \<open>apply()\<close> runs
  \<open>startState.applyTransaction\<close>: when that returns a state, \<open>apply()\<close> returns it and
  stores it in the transaction; when it raises, \<open>apply()\<close> raises the same error and stores
  nothing. Once a state is stored, \<open>apply()\<close> returns the stored state and leaves the
  transaction as it is, and \<open>change\<close>, \<open>annotate\<close>, \<open>setSelection\<close>, \<open>scrollIntoView\<close>,
  \<open>replaceExtensions\<close> and \<open>reconfigure\<close> raise the error "Transactions may not be modified
  after being applied", which is not a range error. \<open>forEachRange\<close> returns no transaction
  either: it raises what its callback raises, and otherwise that same error from its final
  \<open>setSelection\<close>, for a callback that leaves an applied transaction applied.
\<close>

theorem apply_caches_and_freezes:
  "(state tr = None \<and> applyTransaction X (startState tr) tr = Inr s \<longrightarrow>
      apply_transaction X tr = Inr (s, tr\<lparr>state := Some s\<rparr>))
   \<and> (state tr = None \<and> applyTransaction X (startState tr) tr = Inl e \<longrightarrow>
      apply_transaction X tr = Inl e)
   \<and> (state tr = Some s \<longrightarrow>
        apply_transaction X tr = Inr (s, tr)
        \<and> change X tr c mirror = Inl TransactionApplied
        \<and> annotate tr anns = Inl TransactionApplied
        \<and> setSelection X tr sel = Inl TransactionApplied
        \<and> scrollIntoView tr = Inl TransactionApplied
        \<and> replaceExtensions X tr xs = Inl TransactionApplied
        \<and> reconfigure X tr xs = Inl TransactionApplied
        \<and> \<not> is_RangeError TransactionApplied
        \<and> (keeps_applied f \<longrightarrow>
             forEachRange X tr f =
               (case forEachRange_loop X f (cs_length (changes tr)) (ranges (selection tr)) [] tr of
                  Inl e' \<Rightarrow> Inl e'
                | Inr p \<Rightarrow> Inl TransactionApplied)))"
  using forEachRange_applied [of f tr s X]
  by (simp add: apply_transaction_def change_def annotate_def setSelection_def
      scrollIntoView_def replaceExtensions_def reconfigure_def ensureOpen_def)

lemma applyTransaction_tr0: "applyTransaction ref_collab (startState tr0) tr0 = Inr st0"
  by (simp add: applyTransaction_def tr0_def new_Transaction_def st0_def ref_collab_def
      new_EditorState_eq EditorSelection_single_def range_to_def doc_def)

theorem apply_caches_and_freezes_witness:
  "apply_transaction ref_collab tr0 = Inr (st0, tr_applied)
   \<and> apply_transaction ref_collab tr_bad = Inl SelectionOutsideDocument
   \<and> apply_transaction ref_collab tr_applied = Inr (st0, tr_applied)
   \<and> change ref_collab tr_applied c_X None = Inl TransactionApplied
   \<and> scrollIntoView tr_applied = Inl TransactionApplied
   \<and> forEachRange ref_collab tr_applied f_keep = Inl TransactionApplied"
proof -
  have b: "state tr_bad = None"
    "applyTransaction ref_collab (startState tr_bad) tr_bad = Inl SelectionOutsideDocument"
    by (simp_all add: tr_bad_def applyTransaction_def tr0_def new_Transaction_def st0_def
        ref_collab_def new_EditorState_eq EditorSelection_single_def range_to_def doc_def)
  have k: "keeps_applied f_keep"
    by (simp add: keeps_applied_def f_keep_def)
  have l: "forEachRange_loop ref_collab f_keep (cs_length (changes tr_applied))
      (ranges (selection tr_applied)) [] tr_applied =
      Inr ([\<lparr>anchor = 0, head = 0\<rparr>], tr_applied)"
    by (simp add: tr_applied_def tr0_def new_Transaction_def st0_def EditorSelection_single_def
        f_keep_def ref_collab_def ref_range_map_def ChangeSet_empty_def cs_length_def)
  have s: "state tr_applied = Some st0" "tr0\<lparr>state := Some st0\<rparr> = tr_applied"
    by (simp_all add: tr_applied_def)
  show ?thesis
    using apply_caches_and_freezes [of tr0 ref_collab st0]
      apply_caches_and_freezes [of tr_bad ref_collab _ SelectionOutsideDocument]
      apply_caches_and_freezes [of tr_applied ref_collab st0 _ c_X None _ _ _ f_keep]
      state_tr0 applyTransaction_tr0 b k l s
    by simp
qed

text \<open>
  Claim C4 as stated fails: on the open transaction \<open>tr0\<close>, \<open>setSelection\<close> with a cursor
  beyond the document succeeds; the first \<open>apply()\<close> of the result raises the range error
  of the state constructor, so no state is computed or stored, and \<open>scrollIntoView\<close>
  afterwards still updates the transaction. And on the applied transaction,
  \<open>forEachRange\<close> with a callback that raises ends with the error of the callback.
\<close>

theorem apply_failure_counterexample:
  "setSelection ref_collab tr0 (EditorSelection_single 10) = Inr tr_bad
   \<and> apply_transaction ref_collab tr_bad = Inl SelectionOutsideDocument
   \<and> scrollIntoView tr_bad = Inr (tr_bad\<lparr>flags := 3\<rparr>)
   \<and> apply_transaction ref_collab tr0 = Inr (st0, tr_applied)
   \<and> forEachRange ref_collab tr_applied f_throw = Inl (Thrown 7)"
  by (simp add: setSelection_def ensureOpen_def scrollIntoView_def apply_transaction_def
      applyTransaction_def tr_bad_def tr_applied_def tr0_def new_Transaction_def st0_def
      ref_collab_def new_EditorState_eq EditorSelection_single_def range_to_def doc_def
      forEachRange_def f_throw_def)

section \<open>Inverting the changes of a transaction\<close>

lemma snapshots_length: "snapshots X d0 cs ds \<Longrightarrow> length ds = length cs"
  by (induction X d0 cs ds rule: snapshots.induct) auto

lemma snapshots_nth:
  "snapshots X d0 cs ds \<Longrightarrow> i < length cs \<Longrightarrow>
   valid_change X (cs ! i) (doc_before d0 ds i)
   \<and> ds ! i = change_apply X (cs ! i) (doc_before d0 ds i)"
proof (induction X d0 cs ds arbitrary: i rule: snapshots.induct)
  case (2 X d0 c cs d ds)
  show ?case
  proof (cases i)
    case 0
    with "2.prems" show ?thesis by (simp add: doc_before_def)
  next
    case (Suc j)
    with "2.prems" have j: "j < length cs" and s: "snapshots X d cs ds" by auto
    from "2.IH" [OF s j] have
      "valid_change X (cs ! j) (doc_before d ds j)
       \<and> ds ! j = change_apply X (cs ! j) (doc_before d ds j)" by simp
    moreover have "doc_before d0 (d # ds) (Suc j) = doc_before d ds j"
      by (cases j) (simp_all add: doc_before_def)
    ultimately show ?thesis using Suc by simp
  qed
qed simp_all

lemma snapshots_snoc:
  "snapshots X d0 cs ds \<Longrightarrow> valid_change X c (if ds = [] then d0 else last ds) \<Longrightarrow>
   snapshots X d0 (cs @ [c]) (ds @ [change_apply X c (if ds = [] then d0 else last ds)])"
  by (induction X d0 cs ds rule: snapshots.induct) auto

lemma inverted_loop_restores:
  assumes u: "invert_undoes X"
    and s: "snapshots X (es_doc (startState tr)) (cs_changes (changes tr)) (docs tr)"
  shows "n \<le> length (cs_changes (changes tr)) \<Longrightarrow>
    \<exists>invs. inverted_loop X tr n acc = Inr (acc @ invs) \<and> length invs = n
      \<and> fold (change_apply X) invs (doc_before (es_doc (startState tr)) (docs tr) n)
          = es_doc (startState tr)"
proof (induction n arbitrary: acc)
  case 0
  then show ?case by (simp add: doc_before_def)
next
  case (Suc i)
  let ?start = "es_doc (startState tr)"
  let ?c = "cs_changes (changes tr) ! i"
  let ?d = "doc_before ?start (docs tr) i"
  from Suc.prems have i: "i < length (cs_changes (changes tr))" by simp
  have len: "length (docs tr) = length (cs_changes (changes tr))"
    using s by (rule snapshots_length)
  from snapshots_nth [OF s i] have v: "valid_change X ?c ?d"
    and a: "docs tr ! i = change_apply X ?c ?d" by simp_all
  from u v obtain c' where c': "change_invert X ?c (Some ?d) = Inr c'"
    and rst: "change_apply X c' (change_apply X ?c ?d) = ?d"
    unfolding invert_undoes_def by blast
  have arg: "(if i = 0 then Some ?start else array_get (docs tr) (int i - 1)) = Some ?d"
    using i len by (auto simp add: doc_before_def array_get_def nat_diff_distrib)
  from i have "i \<le> length (cs_changes (changes tr))" by simp
  from Suc.IH [OF this, of "acc @ [c']"] obtain invs where
    l: "inverted_loop X tr i (acc @ [c']) = Inr ((acc @ [c']) @ invs)" and n: "length invs = i"
    and f: "fold (change_apply X) invs ?d = ?start"
    by blast
  have "doc_before ?start (docs tr) (Suc i) = docs tr ! i"
    by (simp add: doc_before_def)
  with a rst f have "fold (change_apply X) (c' # invs) (doc_before ?start (docs tr) (Suc i)) = ?start"
    by simp
  moreover have "inverted_loop X tr (Suc i) acc = Inr (acc @ c' # invs)"
    using c' arg l by simp
  ultimately show ?case using n
    by (intro exI [of _ "c' # invs"]) simp
qed

lemma doc_is_last:
  "length (docs tr) = n \<Longrightarrow> doc tr = doc_before (es_doc (startState tr)) (docs tr) n"
  by (cases "docs tr" rule: rev_cases) (auto simp add: doc_def doc_before_def nth_append)

text \<open>
  Claim C1. For every transaction built by the constructor and the methods (so that
  \<open>docs\<close> holds the document after each recorded change), and with \<open>Change.invert\<close>
  returning a change that undoes the change on the document it was applied to:
  \<open>invertedChanges()\<close> returns a change set; applying its changes, in the order of the
  set, to the document at the end of the transaction gives the document of the start
  state; its mirror indices are the mirror indices \<open>i\<close> of the transaction's change set
  mapped to \<open>length - i - 1\<close>; and for a transaction with no changes it is the empty set.
\<close>

theorem invertedChanges_restores:
  assumes "invert_undoes X" and "consistent X tr"
  shows "\<exists>inv. invertedChanges X tr = Inr inv
     \<and> fold (change_apply X) (cs_changes inv) (doc tr) = es_doc (startState tr)
     \<and> cs_mirror inv = map (\<lambda>i. cs_length (changes tr) - i - 1) (cs_mirror (changes tr))
     \<and> length (cs_changes inv) = length (cs_changes (changes tr))
     \<and> (cs_changes (changes tr) = [] \<longrightarrow> inv = ChangeSet_empty)"
proof (cases "cs_changes (changes tr) = []")
  case True
  with assms(2) have "docs tr = []" "cs_mirror (changes tr) = []"
    by (auto simp add: consistent_def dest: snapshots_length)
  with True show ?thesis
    by (simp add: invertedChanges_def cs_length_def ChangeSet_empty_def doc_def)
next
  case False
  from assms(2) have s: "snapshots X (es_doc (startState tr)) (cs_changes (changes tr)) (docs tr)"
    by (simp add: consistent_def)
  from inverted_loop_restores [OF assms(1) s, of "length (cs_changes (changes tr))" "[]"]
  obtain invs where l: "inverted_loop X tr (length (cs_changes (changes tr))) [] = Inr invs"
    and n: "length invs = length (cs_changes (changes tr))"
    and f: "fold (change_apply X) invs
        (doc_before (es_doc (startState tr)) (docs tr) (length (cs_changes (changes tr))))
        = es_doc (startState tr)"
    by auto
  from doc_is_last [OF snapshots_length [OF s]] f
  have "fold (change_apply X) invs (doc tr) = es_doc (startState tr)" by simp
  with False l n show ?thesis
    by (auto simp add: invertedChanges_def cs_length_def Let_def)
qed

text \<open>The invariant holds after the constructor and is kept by every method.\<close>

lemma consistent_new: "consistent X (new_Transaction st time now)"
  by (simp add: consistent_def new_Transaction_def ChangeSet_empty_def)

lemma consistent_change:
  assumes "consistent X tr" and "change X tr c mirror = Inr tr'"
  shows "consistent X tr'"
proof (cases "noop_change c")
  case True
  with assms show ?thesis
    by (auto simp add: change_def noop_change_def split: sum.splits)
next
  case False
  with assms(2) have v: "valid_change X c (doc tr)"
    and eq: "tr' = tr\<lparr>changes := cs_append (changes tr) c mirror,
                     docs := docs tr @ [change_apply X c (doc tr)],
                     selection := selection_map X (selection tr) c\<rparr>"
    by (auto simp add: change_def noop_change_def valid_change_def split: sum.splits if_splits)
  from assms(1) have "snapshots X (es_doc (startState tr)) (cs_changes (changes tr)) (docs tr)"
    by (simp add: consistent_def)
  from snapshots_snoc [OF this, of c] v
  have "snapshots X (es_doc (startState tr)) (cs_changes (changes tr) @ [c])
          (docs tr @ [change_apply X c (doc tr)])"
    by (simp add: doc_def)
  with eq show ?thesis
    by (simp add: consistent_def cs_append_def)
qed

lemma consistent_others:
  assumes "consistent X tr"
  shows "annotate tr anns = Inr tr' \<Longrightarrow> consistent X tr'"
    and "setSelection X tr sel = Inr tr' \<Longrightarrow> consistent X tr'"
    and "scrollIntoView tr = Inr tr' \<Longrightarrow> consistent X tr'"
    and "replaceExtensions X tr xs = Inr tr' \<Longrightarrow> consistent X tr'"
    and "reconfigure X tr xs = Inr tr' \<Longrightarrow> consistent X tr'"
    and "apply_transaction X tr = Inr (s, tr') \<Longrightarrow> consistent X tr'"
  using assms
  by (auto simp add: annotate_def setSelection_def scrollIntoView_def replaceExtensions_def
      reconfigure_def apply_transaction_def consistent_def split: sum.splits option.splits)

lemma forEachRange_loop_consistent:
  assumes f: "\<And>r u r' u'. consistent X u \<Longrightarrow> f r u = Inr (r', u') \<Longrightarrow> consistent X u'"
  shows "consistent X tr \<Longrightarrow> forEachRange_loop X f start rs acc tr = Inr (news, tr') \<Longrightarrow>
         consistent X tr'"
proof (induction rs arbitrary: acc tr)
  case Nil
  then show ?case by simp
next
  case (Cons r rs)
  from Cons.prems(2) obtain res u where
    c: "f (range_map X r (changes tr) start) tr = Inr (res, u)"
    and l: "forEachRange_loop X f start rs
        ((if cs_length (changes u) > cs_length (changes tr)
          then map (\<lambda>n. range_map X n (changes u) (cs_length (changes tr))) acc
          else acc) @ [res]) u = Inr (news, tr')"
    by (auto simp add: Let_def split: sum.splits)
  from f [OF Cons.prems(1) c] have "consistent X u" .
  from Cons.IH [OF this l] show ?case .
qed

lemma consistent_forEachRange:
  assumes "\<And>r u r' u'. consistent X u \<Longrightarrow> f r u = Inr (r', u') \<Longrightarrow> consistent X u'"
    and "consistent X tr" and "forEachRange X tr f = Inr tr'"
  shows "consistent X tr'"
proof -
  from assms(3) obtain news u where
    l: "forEachRange_loop X f (cs_length (changes tr)) (ranges (selection tr)) [] tr = Inr (news, u)"
    and s: "setSelection X u (selection_create X news (primaryIndex (selection tr))) = Inr tr'"
    by (auto simp add: forEachRange_def Let_def split: sum.splits)
  from forEachRange_loop_consistent [of X f, OF assms(1) assms(2) l] have "consistent X u" .
  from consistent_others(2) [OF this s] show ?thesis .
qed

lemma ref_invert_undoes: "invert_undoes ref_collab"
proof -
  have "ref_apply c' (ref_apply c d) = d"
    if v: "0 \<le> c_from c" "c_from c \<le> c_to c" "c_to c \<le> int (length d)"
      and c': "ref_invert c (Some d) = Inr c'" for c c' and d :: string
  proof -
    let ?f = "nat (c_from c)" and ?t = "nat (c_to c)" and ?ins = "join_lines (c_text c)"
    from v have ft: "?f \<le> ?t" "?t \<le> length d" by simp_all
    from c' have c'_eq: "c_from c' = c_from c" "c_to c' = c_from c + int (length ?ins)"
      "c_text c' = [take (?t - ?f) (drop ?f d)]"
      by (auto simp add: ref_invert_def ref_inserted_def)
    from v have n: "nat (c_from c + int (length ?ins)) = ?f + length ?ins"
      by (simp add: nat_add_distrib)
    have "take ?f d @ take (?t - ?f) (drop ?f d) = take ?t d"
      using ft take_add [of ?f "?t - ?f" d] by simp
    then have "take ?f d @ take (?t - ?f) (drop ?f d) @ drop ?t d = d"
      by (metis append.assoc append_take_drop_id)
    with ft show ?thesis
      by (simp add: ref_apply_def c'_eq n)
  qed
  then show ?thesis
    by (auto simp add: invert_undoes_def valid_change_def ref_collab_def ref_invert_def)
qed

lemma change_tr0_X: "change ref_collab tr0 c_X None = Inr (tr_X\<lparr>selection := EditorSelection_single 0\<rparr>)"
  by (simp add: change_def ensureOpen_def tr0_def tr_X_def new_Transaction_def st0_def c_X_def
      ref_collab_def doc_def cs_append_def ChangeSet_empty_def ref_apply_def
      ref_selection_map_def ref_map_range_def ref_mapPos_def EditorSelection_single_def)

lemma tr_X_selection: "tr_X\<lparr>selection := EditorSelection_single 0\<rparr> = tr_X"
  by (simp add: tr_X_def tr0_def new_Transaction_def st0_def)

lemma change_tr_X_Y: "change ref_collab tr_X c_Y (Some 0) = Inr tr_XY"
  by (simp add: change_def ensureOpen_def tr0_def tr_X_def tr_XY_def new_Transaction_def st0_def
      c_X_def c_Y_def ref_collab_def doc_def cs_append_def cs_length_def ref_apply_def
      ref_selection_map_def ref_map_range_def ref_mapPos_def EditorSelection_single_def)

lemma consistent_tr_XY: "consistent ref_collab tr_XY"
proof -
  have "consistent ref_collab tr0"
    unfolding tr0_def by (rule consistent_new)
  from consistent_change [OF this change_tr0_X] have "consistent ref_collab tr_X"
    by (simp add: tr_X_selection)
  from consistent_change [OF this change_tr_X_Y] show ?thesis .
qed

lemma invertedChanges_tr_XY: "invertedChanges ref_collab tr_XY = Inr inv_XY"
  by (simp add: invertedChanges_def tr_XY_def inv_XY_def tr0_def new_Transaction_def st0_def
      cs_length_def numeral_2_eq_2 ref_collab_def ref_invert_def ref_inserted_def c_X_def c_Y_def
      array_get_def)

theorem invertedChanges_restores_witness:
  "invert_undoes ref_collab \<and> consistent ref_collab tr_XY
   \<and> invertedChanges ref_collab tr_XY = Inr inv_XY
   \<and> doc tr_XY = ''YYXc''
   \<and> fold (change_apply ref_collab) (cs_changes inv_XY) (doc tr_XY) = ''abc''
   \<and> cs_mirror (changes tr_XY) = [1, 0] \<and> cs_mirror inv_XY = [0, 1]
   \<and> invertedChanges ref_collab tr0 = Inr ChangeSet_empty"
proof -
  have "consistent ref_collab tr0"
    unfolding tr0_def by (rule consistent_new)
  from invertedChanges_restores [OF ref_invert_undoes this]
  have e: "invertedChanges ref_collab tr0 = Inr ChangeSet_empty"
    by (auto simp add: tr0_def new_Transaction_def ChangeSet_empty_def)
  from invertedChanges_restores [OF ref_invert_undoes consistent_tr_XY]
  have "fold (change_apply ref_collab) (cs_changes inv_XY) (doc tr_XY) = es_doc (startState tr_XY)"
    by (simp add: invertedChanges_tr_XY)
  moreover have "es_doc (startState tr_XY) = ''abc''" "doc tr_XY = ''YYXc''"
    "cs_mirror (changes tr_XY) = [1, 0]" "cs_mirror inv_XY = [0, 1]"
    by (simp_all add: tr_XY_def tr0_def new_Transaction_def st0_def doc_def inv_XY_def)
  ultimately show ?thesis
    using ref_invert_undoes consistent_tr_XY invertedChanges_tr_XY e by simp
qed

section \<open>Running a function over the selection ranges\<close>

lemma map_remap_after:
  "map (remap_after X i) acc =
     (if cs_length (changes (inv_after i)) > cs_length (changes (inv_before i))
      then map (\<lambda>n. range_map X n (changes (inv_after i)) (cs_length (changes (inv_before i)))) acc
      else acc)"
  by (induction acc) (auto simp add: remap_after_def)

lemma forEachRange_loop_invocations:
  "forEachRange_loop X f start rs acc tr =
     (case invocations X f start rs tr of
        Inl e \<Rightarrow> Inl e
      | Inr invs \<Rightarrow> Inr (foldl (collect X) acc invs, last_transaction tr invs))"
proof (induction rs arbitrary: acc tr)
  case Nil
  then show ?case by (simp add: last_transaction_def)
next
  case (Cons r rs)
  show ?case
  proof (cases "f (range_map X r (changes tr) start) tr")
    case (Inl e)
    then show ?thesis by simp
  next
    case (Inr p)
    obtain res tr' where p: "p = (res, tr')" by (cases p)
    show ?thesis
    proof (cases "invocations X f start rs tr'")
      case (Inl e)
      with Inr p Cons.IH show ?thesis by simp
    next
      case inv: (Inr invs)
      with Inr p Cons.IH show ?thesis
        by (simp add: collect_def map_remap_after last_transaction_def Let_def)
    qed
  qed
qed

lemma invocations_nth:
  "invocations X f start rs tr = Inr invs \<Longrightarrow>
   length invs = length rs
   \<and> (\<forall>i < length rs.
        inv_before (invs ! i) = (if i = 0 then tr else inv_after (invs ! (i - 1)))
        \<and> inv_arg (invs ! i) = range_map X (rs ! i) (changes (inv_before (invs ! i))) start
        \<and> f (inv_arg (invs ! i)) (inv_before (invs ! i)) = Inr (inv_result (invs ! i), inv_after (invs ! i)))"
proof (induction rs arbitrary: tr invs)
  case Nil
  then show ?case by simp
next
  case (Cons r rs)
  from Cons.prems obtain res tr' rest where
    c: "f (range_map X r (changes tr) start) tr = Inr (res, tr')"
    and r: "invocations X f start rs tr' = Inr rest"
    and e: "invs = \<lparr>inv_before = tr, inv_arg = range_map X r (changes tr) start,
                    inv_result = res, inv_after = tr'\<rparr> # rest"
    by (auto split: sum.splits)
  note ih = Cons.IH [OF r]
  show ?case
  proof (intro conjI allI impI)
    show "length invs = length (r # rs)" using ih e by simp
  next
    fix i assume i: "i < length (r # rs)"
    show "inv_before (invs ! i) = (if i = 0 then tr else inv_after (invs ! (i - 1)))"
    proof (cases i)
      case 0 then show ?thesis using e by simp
    next
      case (Suc j)
      with i ih e show ?thesis by (cases j) auto
    qed
    show "inv_arg (invs ! i) = range_map X ((r # rs) ! i) (changes (inv_before (invs ! i))) start"
      using i ih e by (cases i) auto
    show "f (inv_arg (invs ! i)) (inv_before (invs ! i)) = Inr (inv_result (invs ! i), inv_after (invs ! i))"
      using i ih e c by (cases i) auto
  qed
qed

lemma foldl_collect_nth:
  "j < length acc \<Longrightarrow>
   foldl (collect X) acc invs ! j = fold (remap_after X) invs (acc ! j)"
  by (induction invs arbitrary: acc) (simp_all add: collect_def nth_append)

lemma foldl_collect_length: "length (foldl (collect X) acc invs) = length acc + length invs"
  by (induction invs arbitrary: acc) (simp_all add: collect_def)

lemma foldl_collect_new:
  "j < length invs \<Longrightarrow>
   foldl (collect X) acc invs ! (length acc + j) =
     fold (remap_after X) (drop (Suc j) invs) (inv_result (invs ! j))"
proof (induction invs arbitrary: acc j)
  case Nil
  then show ?case by simp
next
  case (Cons i invs)
  show ?case
  proof (cases j)
    case 0
    have "foldl (collect X) (collect X acc i) invs ! length acc =
          fold (remap_after X) invs (collect X acc i ! length acc)"
      by (rule foldl_collect_nth) (simp add: collect_def)
    moreover have "collect X acc i ! length acc = inv_result i"
      by (simp add: collect_def nth_append)
    ultimately show ?thesis using 0 by simp
  next
    case (Suc k)
    with Cons.prems have k: "k < length invs" by simp
    from Cons.IH [OF k, of "collect X acc i"] Suc show ?thesis
      by (simp add: collect_def)
  qed
qed

text \<open>
  Claim C2. \<open>forEachRange(f)\<close> calls \<open>f\<close> once for each selection range the transaction
  has when the method starts, in order; when a call raises, so does the method. The call
  number \<open>i\<close> finds the transaction as the call before left it (the first one as the
  method found it) and receives range number \<open>i\<close> mapped through
  \<open>changes.partialMapping(start)\<close> of the change set it finds, \<open>start\<close> being the number
  of changes when the method started. After each call the ranges collected so far are
  remapped through the changes that call appended and the returned range is added, so
  that in the end range number \<open>i\<close> is the result of call \<open>i\<close> remapped after each later
  call in turn. The method ends with \<open>setSelection\<close> on the selection created from the
  collected ranges and the primary index of the selection it started with.
\<close>

theorem forEachRange_invocations:
  "forEachRange X tr f =
     (case invocations X f (cs_length (changes tr)) (ranges (selection tr)) tr of
        Inl e \<Rightarrow> Inl e
      | Inr invs \<Rightarrow>
          setSelection X (last_transaction tr invs)
            (selection_create X (foldl (collect X) [] invs) (primaryIndex (selection tr))))
   \<and> (invocations X f (cs_length (changes tr)) (ranges (selection tr)) tr = Inr invs \<longrightarrow>
        length invs = length (ranges (selection tr))
        \<and> length (foldl (collect X) [] invs) = length (ranges (selection tr))
        \<and> (\<forall>i < length (ranges (selection tr)).
             inv_before (invs ! i) = (if i = 0 then tr else inv_after (invs ! (i - 1)))
             \<and> inv_arg (invs ! i) =
                 range_map X (ranges (selection tr) ! i) (changes (inv_before (invs ! i)))
                   (cs_length (changes tr))
             \<and> f (inv_arg (invs ! i)) (inv_before (invs ! i)) =
                 Inr (inv_result (invs ! i), inv_after (invs ! i))
             \<and> foldl (collect X) [] invs ! i =
                 fold (remap_after X) (drop (Suc i) invs) (inv_result (invs ! i))))"
proof (intro conjI impI)
  show "forEachRange X tr f =
     (case invocations X f (cs_length (changes tr)) (ranges (selection tr)) tr of
        Inl e \<Rightarrow> Inl e
      | Inr invs \<Rightarrow>
          setSelection X (last_transaction tr invs)
            (selection_create X (foldl (collect X) [] invs) (primaryIndex (selection tr))))"
    by (simp add: forEachRange_def forEachRange_loop_invocations Let_def split: sum.splits)
next
  assume a: "invocations X f (cs_length (changes tr)) (ranges (selection tr)) tr = Inr invs"
  from invocations_nth [OF a] have n: "length invs = length (ranges (selection tr))"
    by blast
  from invocations_nth [OF a] have all: "\<forall>i < length (ranges (selection tr)).
        inv_before (invs ! i) = (if i = 0 then tr else inv_after (invs ! (i - 1)))
        \<and> inv_arg (invs ! i) = range_map X (ranges (selection tr) ! i) (changes (inv_before (invs ! i))) (cs_length (changes tr))
        \<and> f (inv_arg (invs ! i)) (inv_before (invs ! i)) = Inr (inv_result (invs ! i), inv_after (invs ! i))"
    by blast
  show "length invs = length (ranges (selection tr))" by (rule n)
  show "length (foldl (collect X) [] invs) = length (ranges (selection tr))"
    using n by (simp add: foldl_collect_length)
  show "\<forall>i < length (ranges (selection tr)).
             inv_before (invs ! i) = (if i = 0 then tr else inv_after (invs ! (i - 1)))
             \<and> inv_arg (invs ! i) =
                 range_map X (ranges (selection tr) ! i) (changes (inv_before (invs ! i)))
                   (cs_length (changes tr))
             \<and> f (inv_arg (invs ! i)) (inv_before (invs ! i)) =
                 Inr (inv_result (invs ! i), inv_after (invs ! i))
             \<and> foldl (collect X) [] invs ! i =
                 fold (remap_after X) (drop (Suc i) invs) (inv_result (invs ! i))"
  proof (intro allI impI)
    fix i assume i: "i < length (ranges (selection tr))"
    with n have "i < length invs" by simp
    from foldl_collect_new [OF this, of X "[]"]
    have "foldl (collect X) [] invs ! i =
            fold (remap_after X) (drop (Suc i) invs) (inv_result (invs ! i))"
      by simp
    with all i show "inv_before (invs ! i) = (if i = 0 then tr else inv_after (invs ! (i - 1)))
             \<and> inv_arg (invs ! i) =
                 range_map X (ranges (selection tr) ! i) (changes (inv_before (invs ! i)))
                   (cs_length (changes tr))
             \<and> f (inv_arg (invs ! i)) (inv_before (invs ! i)) =
                 Inr (inv_result (invs ! i), inv_after (invs ! i))
             \<and> foldl (collect X) [] invs ! i =
                 fold (remap_after X) (drop (Suc i) invs) (inv_result (invs ! i))"
      by blast
  qed
qed

lemma invocations_multi:
  "invocations ref_collab f_ins (cs_length (changes tr_multi)) (ranges (selection tr_multi)) tr_multi
     = Inr invs_multi"
  by (simp add: invs_multi_def tr_multi_def tr_multi1_def tr_multi2_def st_multi_def
      new_Transaction_def f_ins_def c_ins_def sel_moved_def change_def ensureOpen_def
      ref_collab_def doc_def cs_append_def cs_length_def ChangeSet_empty_def ref_apply_def
      ref_selection_map_def ref_map_range_def ref_mapPos_def ref_range_map_def ref_inserted_def
      range_from_def range_to_def)

lemma collected_multi:
  "foldl (collect ref_collab) [] invs_multi = [\<lparr>anchor = 1, head = 1\<rparr>, \<lparr>anchor = 4, head = 4\<rparr>]"
  by (simp add: invs_multi_def collect_def remap_after_def tr_multi_def tr_multi1_def
      tr_multi2_def new_Transaction_def c_ins_def cs_length_def ChangeSet_empty_def
      ref_collab_def ref_range_map_def ref_map_range_def ref_mapPos_def ref_inserted_def)

theorem forEachRange_invocations_witness:
  "invocations ref_collab f_ins (cs_length (changes tr_multi)) (ranges (selection tr_multi)) tr_multi
     = Inr invs_multi
   \<and> forEachRange ref_collab tr_multi f_ins = Inr tr_multi_done
   \<and> inv_arg (invs_multi ! 1) =
       range_map ref_collab (ranges (selection tr_multi) ! 1) (changes (inv_before (invs_multi ! 1)))
         (cs_length (changes tr_multi))
   \<and> inv_arg (invs_multi ! 1) = \<lparr>anchor = 3, head = 3\<rparr>
   \<and> foldl (collect ref_collab) [] invs_multi = [\<lparr>anchor = 1, head = 1\<rparr>, \<lparr>anchor = 4, head = 4\<rparr>]
   \<and> doc tr_multi_done = ''XabXc''"
proof -
  note t = forEachRange_invocations [of ref_collab tr_multi f_ins invs_multi]
  have s: "setSelection ref_collab (last_transaction tr_multi invs_multi)
      (selection_create ref_collab [\<lparr>anchor = 1, head = 1\<rparr>, \<lparr>anchor = 4, head = 4\<rparr>]
         (primaryIndex (selection tr_multi))) = Inr tr_multi_done"
    by (simp add: setSelection_def ensureOpen_def last_transaction_def invs_multi_def
        tr_multi_done_def tr_multi2_def tr_multi_def new_Transaction_def st_multi_def
        ref_collab_def ref_create_def)
  have l: "(1::nat) < length (ranges (selection tr_multi))"
    by (simp add: tr_multi_def new_Transaction_def st_multi_def)
  from t invocations_multi s
  have 1: "forEachRange ref_collab tr_multi f_ins = Inr tr_multi_done"
    by (simp add: collected_multi)
  from t invocations_multi l
  have 2: "inv_arg (invs_multi ! 1) =
       range_map ref_collab (ranges (selection tr_multi) ! 1) (changes (inv_before (invs_multi ! 1)))
         (cs_length (changes tr_multi))"
    by blast
  have 3: "inv_arg (invs_multi ! 1) = \<lparr>anchor = 3, head = 3\<rparr>" "doc tr_multi_done = ''XabXc''"
    by (simp_all add: invs_multi_def tr_multi_done_def tr_multi2_def doc_def)
  from invocations_multi 1 2 3 collected_multi show ?thesis by simp
qed

section \<open>Marking a content view dirty\<close>

lemma or_and_absorb: "(x OR y) AND (y::nat) = y"
  by (rule bit_eqI) (auto simp add: bit_and_iff bit_or_iff)

lemma Node_keeps_Child: "(x OR Dirty_Node) AND Dirty_Child = x AND Dirty_Child"
  by (simp add: Dirty_Node_def Dirty_Child_def and_one_eq mod2_eq_if even_or_iff)

lemma Child_not_clean: "x OR Dirty_Child \<noteq> Dirty_Not"
  by (simp add: or_eq_0_iff Dirty_Child_def Dirty_Not_def)

lemma ancestors_unique: "ancestors h p as \<Longrightarrow> ancestors h p bs \<Longrightarrow> as = bs"
proof (induction as arbitrary: p bs)
  case Nil
  then show ?case by (cases bs) auto
next
  case (Cons a as)
  then show ?case by (cases bs) auto
qed

lemma ancestors_suffix: "ancestors h p (xs @ a # ys) \<Longrightarrow> ancestors h (parent (h a)) ys"
  by (induction xs arbitrary: p) auto

lemma ancestors_not_self:
  assumes "ancestors h (parent (h n)) as"
  shows "n \<notin> set as"
proof
  assume "n \<in> set as"
  then obtain xs ys where s: "as = xs @ n # ys"
    by (auto simp add: in_set_conv_decomp)
  with assms have "ancestors h (parent (h n)) ys"
    using ancestors_suffix by blast
  with assms have "as = ys" by (rule ancestors_unique)
  with s show False by simp
qed

lemma ancestors_distinct: "ancestors h p as \<Longrightarrow> distinct as"
proof (induction as arbitrary: p)
  case Nil
  then show ?case by simp
next
  case (Cons a as)
  then have "ancestors h (parent (h a)) as" by simp
  with Cons.IH ancestors_not_self show ?case by auto
qed

lemma ancestors_same_parents:
  "(\<And>x. parent (h' x) = parent (h x)) \<Longrightarrow> ancestors h' p as = ancestors h p as"
  by (induction as arbitrary: p) auto

lemma parent_set_dirty [simp]: "parent (set_dirty h a bits x) = parent (h x)"
  by (simp add: set_dirty_def)

lemma dirty_set_dirty:
  "dirty (set_dirty h a bits x) = (if x = a then dirty (h a) OR bits else dirty (h x))"
  by (simp add: set_dirty_def)

lemma ancestors_set_dirty [simp]: "ancestors (set_dirty h a bits) p as = ancestors h p as"
  by (rule ancestors_same_parents) simp

lemma mark_set_empty [simp]: "mark_set h {} bits = h"
  by (simp add: mark_set_def)

lemma mark_set_insert:
  "a \<notin> S \<Longrightarrow> mark_set (set_dirty h a bits) S bits = mark_set h (insert a S) bits"
  by (auto simp add: mark_set_def set_dirty_def fun_eq_iff)

lemma takeWhile_lacks_cong:
  "(\<And>x. x \<in> set as \<Longrightarrow> dirty (h' x) AND Dirty_Child = dirty (h x) AND Dirty_Child) \<Longrightarrow>
   takeWhile (lacks_child h') as = takeWhile (lacks_child h) as"
  by (rule takeWhile_cong) (simp_all add: lacks_child_def)

lemma walk_None: "markParentsDirty_from h None childList = Some h"
  by (subst markParentsDirty_from.simps) simp

lemma walk_Some:
  "markParentsDirty_from h (Some a) childList =
     (let h1 = (if childList then set_dirty h a Dirty_Node else h) in
      if dirty (h1 a) AND Dirty_Child \<noteq> 0 then Some h1
      else markParentsDirty_from (set_dirty h1 a Dirty_Child) (parent (h1 a)) False)"
  by (subst markParentsDirty_from.simps) simp

lemma walk_plain:
  "ancestors h p as \<Longrightarrow>
   markParentsDirty_from h p False = Some (mark_set h (set (takeWhile (lacks_child h) as)) Dirty_Child)"
proof (induction as arbitrary: h p)
  case Nil
  then show ?case by (simp add: walk_None)
next
  case (Cons a as)
  then have p: "p = Some a" and rest: "ancestors h (parent (h a)) as" by simp_all
  from Cons.prems have d: "a \<notin> set as" using ancestors_distinct by fastforce
  show ?case
  proof (cases "lacks_child h a")
    case False
    then have "dirty (h a) AND Dirty_Child \<noteq> 0" by (simp add: lacks_child_def)
    with p False show ?thesis
      by (simp add: walk_Some)
  next
    case True
    let ?h = "set_dirty h a Dirty_Child"
    from rest have "ancestors ?h (parent (h a)) as" by simp
    from Cons.IH [OF this]
    have "markParentsDirty_from ?h (parent (h a)) False =
            Some (mark_set ?h (set (takeWhile (lacks_child ?h) as)) Dirty_Child)" .
    moreover have "takeWhile (lacks_child ?h) as = takeWhile (lacks_child h) as"
      using d by (intro takeWhile_lacks_cong) (auto simp add: dirty_set_dirty)
    moreover have "a \<notin> set (takeWhile (lacks_child h) as)"
      using d by (auto dest: set_takeWhileD)
    ultimately have "markParentsDirty_from ?h (parent (h a)) False =
        Some (mark_set h (insert a (set (takeWhile (lacks_child h) as))) Dirty_Child)"
      by (simp add: mark_set_insert)
    moreover from True have "dirty (h a) AND Dirty_Child = 0" by (simp add: lacks_child_def)
    ultimately show ?thesis using True p
      by (simp add: walk_Some)
  qed
qed

lemma walk_childList:
  assumes "ancestors h p as"
  shows "markParentsDirty_from h p True =
     Some (mark_set (mark_set h (set (take 1 as)) Dirty_Node)
             (set (takeWhile (lacks_child h) as)) Dirty_Child)"
proof (cases as)
  case Nil
  with assms show ?thesis by (simp add: walk_None)
next
  case (Cons a rest)
  with assms have p: "p = Some a" and r: "ancestors h (parent (h a)) rest" by simp_all
  from assms Cons have d: "a \<notin> set rest" using ancestors_distinct by fastforce
  let ?h1 = "set_dirty h a Dirty_Node"
  have m: "mark_set h {a} Dirty_Node = ?h1"
    by (auto simp add: mark_set_def set_dirty_def fun_eq_iff)
  have c: "dirty (?h1 a) AND Dirty_Child = dirty (h a) AND Dirty_Child"
    by (simp add: dirty_set_dirty Node_keeps_Child)
  show ?thesis
  proof (cases "lacks_child h a")
    case False
    then have "dirty (h a) AND Dirty_Child \<noteq> 0" by (simp add: lacks_child_def)
    with False p Cons c m show ?thesis
      by (simp add: walk_Some)
  next
    case True
    let ?h2 = "set_dirty ?h1 a Dirty_Child"
    from r have "ancestors ?h2 (parent (h a)) rest" by simp
    from walk_plain [OF this]
    have "markParentsDirty_from ?h2 (parent (h a)) False =
            Some (mark_set ?h2 (set (takeWhile (lacks_child ?h2) rest)) Dirty_Child)" .
    moreover have "takeWhile (lacks_child ?h2) rest = takeWhile (lacks_child h) rest"
      using d by (intro takeWhile_lacks_cong) (auto simp add: dirty_set_dirty)
    moreover have "a \<notin> set (takeWhile (lacks_child h) rest)"
      using d by (auto dest: set_takeWhileD)
    ultimately have "markParentsDirty_from ?h2 (parent (h a)) False =
        Some (mark_set ?h1 (insert a (set (takeWhile (lacks_child h) rest))) Dirty_Child)"
      by (simp add: mark_set_insert)
    moreover from True have "dirty (h a) AND Dirty_Child = 0" by (simp add: lacks_child_def)
    ultimately show ?thesis using True p Cons c m
      by (simp add: walk_Some)
  qed
qed

lemma markDirty_clean:
  assumes a: "ancestors h (parent (h n)) as" and c: "dirty (h n) AND Dirty_Node = 0"
  shows "markDirty h n andParent =
     Some (mark_set (mark_set (set_dirty h n Dirty_Node)
                       (if andParent = Some True then set (take 1 as) else {}) Dirty_Node)
             (set (takeWhile (lacks_child h) as)) Dirty_Child)"
proof -
  let ?h = "set_dirty h n Dirty_Node"
  from a have n: "n \<notin> set as" by (rule ancestors_not_self)
  from a have a': "ancestors ?h (parent (h n)) as" by simp
  have t: "takeWhile (lacks_child ?h) as = takeWhile (lacks_child h) as"
    using n by (intro takeWhile_lacks_cong) (auto simp add: dirty_set_dirty)
  show ?thesis
  proof (cases "andParent = Some True")
    case True
    with c walk_childList [OF a'] t show ?thesis
      by (simp add: markDirty_def markParentsDirty_def)
  next
    case False
    then have "(case andParent of None \<Rightarrow> False | Some b \<Rightarrow> b) = False"
      by (cases andParent) auto
    with False c walk_plain [OF a'] t show ?thesis
      by (simp add: markDirty_def markParentsDirty_def)
  qed
qed

text \<open>
  Claim C6, as amended. For a view whose chain of ancestors ends at a root: \<open>markDirty\<close>
  on a view that is self-dirty already changes nothing. Otherwise it sets the self-dirty
  bit of the view and the child-dirty bit of its ancestors, from the parent upward, as
  long as they have that bit clear; the first ancestor that has the child-dirty bit set
  already, and every ancestor above it, is left as it is. So every ancestor ends with a
  mark, provided the ancestors from that first one upward had one at the start. With
  \<open>andParent\<close>, the parent is made self-dirty as well, before its child-dirty bit is
  tested.
\<close>

theorem markDirty_walk:
  assumes "ancestors h (parent (h n)) as"
  shows "(dirty (h n) AND Dirty_Node \<noteq> 0 \<longrightarrow> markDirty h n andParent = Some h)
   \<and> (dirty (h n) AND Dirty_Node = 0 \<longrightarrow>
        (\<exists>h'. markDirty h n None = Some h' \<and> markDirty h n (Some False) = Some h'
           \<and> h' = mark_set (set_dirty h n Dirty_Node) (set (takeWhile (lacks_child h) as)) Dirty_Child
           \<and> dirty (h' n) = dirty (h n) OR Dirty_Node
           \<and> (\<forall>a \<in> set (takeWhile (lacks_child h) as). dirty (h' a) = dirty (h a) OR Dirty_Child)
           \<and> (\<forall>a \<in> set (dropWhile (lacks_child h) as). h' a = h a)
           \<and> ((\<forall>a \<in> set (dropWhile (lacks_child h) as). dirty (h a) \<noteq> Dirty_Not) \<longrightarrow>
                (\<forall>a \<in> set as. dirty (h' a) \<noteq> Dirty_Not)))
        \<and> markDirty h n (Some True) =
            Some (mark_set (mark_set (set_dirty h n Dirty_Node) (set (take 1 as)) Dirty_Node)
                    (set (takeWhile (lacks_child h) as)) Dirty_Child))"
proof (intro conjI impI)
  assume "dirty (h n) AND Dirty_Node \<noteq> 0"
  then show "markDirty h n andParent = Some h"
    by (simp add: markDirty_def)
next
  assume c: "dirty (h n) AND Dirty_Node = 0"
  from markDirty_clean [OF assms c, of "Some True"]
  show "markDirty h n (Some True) =
            Some (mark_set (mark_set (set_dirty h n Dirty_Node) (set (take 1 as)) Dirty_Node)
                    (set (takeWhile (lacks_child h) as)) Dirty_Child)"
    by simp
next
  assume c: "dirty (h n) AND Dirty_Node = 0"
  let ?S = "set (takeWhile (lacks_child h) as)"
  let ?h' = "mark_set (set_dirty h n Dirty_Node) ?S Dirty_Child"
  from assms have n: "n \<notin> set as" by (rule ancestors_not_self)
  from assms have d: "distinct as" by (rule ancestors_distinct)
  have nS: "n \<notin> ?S" using n by (auto dest: set_takeWhileD)
  have split: "as = takeWhile (lacks_child h) as @ dropWhile (lacks_child h) as" by simp
  have disj: "a \<notin> ?S" if "a \<in> set (dropWhile (lacks_child h) as)" for a
    using d that split by (metis IntI distinct_append empty_iff)
  have 1: "markDirty h n None = Some ?h'" "markDirty h n (Some False) = Some ?h'"
    using markDirty_clean [OF assms c, of None] markDirty_clean [OF assms c, of "Some False"]
    by simp_all
  have 2: "dirty (?h' n) = dirty (h n) OR Dirty_Node"
    using nS by (simp add: mark_set_def dirty_set_dirty)
  have 3: "\<forall>a \<in> ?S. dirty (?h' a) = dirty (h a) OR Dirty_Child"
    using n by (auto simp add: mark_set_def dirty_set_dirty dest: set_takeWhileD)
  have 4: "\<forall>a \<in> set (dropWhile (lacks_child h) as). ?h' a = h a"
  proof
    fix a assume a: "a \<in> set (dropWhile (lacks_child h) as)"
    then have "a \<in> set as" by (auto dest: set_dropWhileD)
    with n have "a \<noteq> n" by auto
    with disj [OF a] show "?h' a = h a"
      by (simp add: mark_set_def set_dirty_def)
  qed
  have 5: "(\<forall>a \<in> set (dropWhile (lacks_child h) as). dirty (h a) \<noteq> Dirty_Not) \<longrightarrow>
                (\<forall>a \<in> set as. dirty (?h' a) \<noteq> Dirty_Not)"
  proof (intro impI ballI)
    fix a assume inv: "\<forall>a \<in> set (dropWhile (lacks_child h) as). dirty (h a) \<noteq> Dirty_Not"
      and a: "a \<in> set as"
    from a split have "a \<in> ?S \<or> a \<in> set (dropWhile (lacks_child h) as)"
      by (metis Un_iff set_append)
    then show "dirty (?h' a) \<noteq> Dirty_Not"
    proof
      assume "a \<in> ?S"
      with 3 show ?thesis by (simp add: Child_not_clean)
    next
      assume "a \<in> set (dropWhile (lacks_child h) as)"
      with 4 inv show ?thesis by simp
    qed
  qed
  from 1 2 3 4 5
  show "\<exists>h'. markDirty h n None = Some h' \<and> markDirty h n (Some False) = Some h'
           \<and> h' = mark_set (set_dirty h n Dirty_Node) (set (takeWhile (lacks_child h) as)) Dirty_Child
           \<and> dirty (h' n) = dirty (h n) OR Dirty_Node
           \<and> (\<forall>a \<in> set (takeWhile (lacks_child h) as). dirty (h' a) = dirty (h a) OR Dirty_Child)
           \<and> (\<forall>a \<in> set (dropWhile (lacks_child h) as). h' a = h a)
           \<and> ((\<forall>a \<in> set (dropWhile (lacks_child h) as). dirty (h a) \<noteq> Dirty_Not) \<longrightarrow>
                (\<forall>a \<in> set as. dirty (h' a) \<noteq> Dirty_Not))"
    by blast
qed

text \<open>
  Claim C6 as stated fails: the walk tests the child-dirty bit only, so an ancestor whose
  mark is \<open>Dirty.Node\<close> alone, which is greater than \<open>Dirty.Child\<close>, does not stop it. In
  \<open>store_B\<close> that ancestor gets the child-dirty bit added; in \<open>store_A\<close> the walk goes on
  to the clean root above it and marks it.
\<close>

theorem markDirty_counterexample:
  "dirty (store_B 1) = Dirty_Node \<and> Dirty_Child \<le> Dirty_Node
   \<and> dirty_at (markDirty store_B 0 None) 1 = Some (Dirty_Node OR Dirty_Child)
   \<and> dirty (store_A 1) = Dirty_Node \<and> dirty (store_A 2) = Dirty_Not
   \<and> dirty_at (markDirty store_A 0 None) 2 = Some Dirty_Child"
  by (simp add: dirty_at_def markDirty_def markParentsDirty_def store_A_def store_B_def
      walk_Some walk_None set_dirty_def Dirty_Not_def Dirty_Child_def Dirty_Node_def)

theorem markDirty_walk_witness:
  "ancestors store_A (parent (store_A 0)) [1, 2]
   \<and> dirty_at (markDirty store_A 0 None) 0 = Some Dirty_Node
   \<and> dirty_at (markDirty store_A 0 None) 1 = Some (Dirty_Node OR Dirty_Child)
   \<and> dirty_at (markDirty store_A 0 None) 2 = Some Dirty_Child
   \<and> markDirty store_A 1 None = Some store_A
   \<and> dirty_at (markDirty store_B 0 None) 1 = Some (Dirty_Node OR Dirty_Child)
   \<and> dirty_at (markDirty store_B 0 None) 2 = Some (dirty (store_B 2))
   \<and> dirty_at (markDirty store_B 0 None) 1 \<noteq> Some Dirty_Not
   \<and> dirty_at (markDirty store_B 0 None) 2 \<noteq> Some Dirty_Not"
proof -
  have a: "ancestors store_A (parent (store_A 0)) [1, 2]"
    "ancestors store_A (parent (store_A 1)) [2]"
    "ancestors store_B (parent (store_B 0)) [1, 2]"
    by (simp_all add: store_A_def store_B_def)
  have c: "dirty (store_A 0) AND Dirty_Node = 0" "dirty (store_A 1) AND Dirty_Node \<noteq> 0"
    "dirty (store_B 0) AND Dirty_Node = 0"
    by (simp_all add: store_A_def store_B_def Dirty_Not_def Dirty_Node_def)
  have l: "takeWhile (lacks_child store_A) [1, 2] = [1, 2]"
    "dropWhile (lacks_child store_A) [1, 2] = []"
    "takeWhile (lacks_child store_B) [1, 2] = [1]"
    "dropWhile (lacks_child store_B) [1, 2] = [2]"
    by (simp_all add: lacks_child_def store_A_def store_B_def Dirty_Not_def Dirty_Node_def
        Dirty_Child_def)
  have v: "dirty (store_A 0) = 0" "dirty (store_A 1) = Dirty_Node" "dirty (store_A 2) = 0"
    "dirty (store_B 1) = Dirty_Node"
    by (simp_all add: store_A_def store_B_def Dirty_Not_def)
  have m: "\<forall>a \<in> set [2]. dirty (store_B a) \<noteq> Dirty_Not"
    by (simp add: store_B_def Dirty_Not_def Dirty_Child_def)
  note A = markDirty_walk [OF a(1), of None, unfolded l]
  note B = markDirty_walk [OF a(3), of None, unfolded l]
  from A c(1) obtain hA where hA: "markDirty store_A 0 None = Some hA"
    "dirty (hA 0) = dirty (store_A 0) OR Dirty_Node"
    "\<forall>a \<in> set [1, 2]. dirty (hA a) = dirty (store_A a) OR Dirty_Child"
    by blast
  from B c(3) m obtain hB where hB: "markDirty store_B 0 None = Some hB"
    "\<forall>a \<in> set [1]. dirty (hB a) = dirty (store_B a) OR Dirty_Child"
    "\<forall>a \<in> set [2]. hB a = store_B a"
    "\<forall>a \<in> set [1, 2]. dirty (hB a) \<noteq> Dirty_Not"
    by blast
  from markDirty_walk [OF a(2), of None] c(2)
  have s: "markDirty store_A 1 None = Some store_A" by simp
  from hA hB s a(1) v show ?thesis
    by (simp add: dirty_at_def)
qed

end
